theory Spec2Isabelle
  imports Main "HOL-Library.Word"
begin

unbundle bit_operations_syntax

section \<open>Machine model\<close>

text \<open>
  The distribution core of the volume works on 32-bit and 64-bit unsigned integers
  (\<open>u32\<close>, \<open>u64\<close>) whose arithmetic wraps around, and on arrays that the C code
  indexes without any bound check. In the embedding an array is a list; an access
  outside the list, a division by zero, a shift of a 32-bit value by a \<open>u32\<close> count of
  32 or more and a use of a null pointer are undefined behaviour of the C program and
  are made explicit as a \<open>fault\<close>. A C function therefore returns \<open>fault + 'a\<close>,
  with \<open>Inl\<close> for the fault.
\<close>

type_synonym u8 = "8 word"
type_synonym u32 = "32 word"
type_synonym u64 = "64 word"

datatype fault = DivideError | OutOfBounds | NullPointer | ShiftOverflow

definition bnd :: "fault + 'a \<Rightarrow> ('a \<Rightarrow> fault + 'b) \<Rightarrow> fault + 'b" where
  "bnd m f = (case m of Inl e \<Rightarrow> Inl e | Inr x \<Rightarrow> f x)"

definition rd :: "'a list \<Rightarrow> nat \<Rightarrow> fault + 'a" where
  "rd xs i = (if i < length xs then Inr (xs ! i) else Inl OutOfBounds)"

definition wr :: "'a list \<Rightarrow> nat \<Rightarrow> 'a \<Rightarrow> fault + 'a list" where
  "wr xs i v = (if i < length xs then Inr (xs[i := v]) else Inl OutOfBounds)"

text \<open>
  \<open>for (i = lo; i < n; i++) body\<close>, the state threaded through the body; the loop
  stops at the first fault.
\<close>

function for_loop :: "nat \<Rightarrow> nat \<Rightarrow> (nat \<Rightarrow> 's \<Rightarrow> fault + 's) \<Rightarrow> 's \<Rightarrow> fault + 's" where
  "for_loop i n body s =
     (if i < n
      then (case body i s of Inl e \<Rightarrow> Inl e | Inr s' \<Rightarrow> for_loop (Suc i) n body s')
      else Inr s)"
  by pat_completeness auto
termination
  by (relation "measure (\<lambda>(i, n, body, s). n - i)") auto

declare for_loop.simps [simp del]

section \<open>Calibrator (fsx32.c, calibrate)\<close>

text \<open>
  \<open>calibrate(num, val, vec, vec_el_get, ret, ret_el_get, ret_el_set)\<close>.
  The bucket vector is seen through \<open>vec_el_get\<close> only, so it is the list \<open>caps\<close>
  of the capacities; \<open>ret\<close> is the output array, of \<open>u32\<close> for \<open>calibrate32\<close> and of
  \<open>u64\<close> for \<open>calibrate64\<close>: \<open>ret_el_set\<close> truncates the 64-bit value to the
  element width and \<open>ret_el_get\<close> extends it with zeros. All sums and the product
  \<open>val * cap\<close> are computed in \<open>u64\<close> and wrap; \<open>div64_u64\<close> by zero is a
  divide error.
\<close>

definition calibrate ::
  "u64 \<Rightarrow> u64 \<Rightarrow> u64 list \<Rightarrow> 'a::len word list \<Rightarrow> fault + 'a word list" where
  "calibrate num val caps ret =
     bnd (for_loop 0 (unat num) (\<lambda>i sum_not_scaled.
            bnd (rd caps i) (\<lambda>c. Inr (sum_not_scaled + c))) 0)
      (\<lambda>sum_not_scaled.
     bnd (for_loop 0 (unat num) (\<lambda>i (ret, sum_scaled).
            bnd (rd caps i) (\<lambda>c.
              let q = val * c in
              if sum_not_scaled = 0 then Inl DivideError
              else let result = q div sum_not_scaled in
                bnd (wr ret i (ucast result)) (\<lambda>ret.
                Inr (ret, sum_scaled + result)))) (ret, 0))
      (\<lambda>(ret, sum_scaled).
     let rest = val - sum_scaled in
     for_loop 0 (unat rest) (\<lambda>i ret.
       bnd (rd ret i) (\<lambda>v. wr ret i (ucast ((ucast v :: u64) + 1)))) ret))"

definition calibrate32 :: "u32 \<Rightarrow> u32 \<Rightarrow> u64 list \<Rightarrow> u32 list \<Rightarrow> fault + u32 list" where
  "calibrate32 num val caps ret = calibrate (ucast num) (ucast val) caps ret"

definition calibrate64 :: "u64 \<Rightarrow> u64 \<Rightarrow> u64 list \<Rightarrow> u64 list \<Rightarrow> fault + u64 list" where
  "calibrate64 num val caps ret = calibrate num val caps ret"

section \<open>Buckets and the distribution context\<close>

text \<open>
  Error codes returned by the C functions (a function returns 0 or minus the code).
\<close>

abbreviation ENOMEM :: int where "ENOMEM \<equiv> 12"
abbreviation EBUSY :: int where "EBUSY \<equiv> 16"
abbreviation EINVAL :: int where "EINVAL \<equiv> 22"
abbreviation ENOTTY :: int where "ENOTTY \<equiv> 25"
abbreviation ENOSPC :: int where "ENOSPC \<equiv> 28"

abbreviation MAX_SHIFT :: nat where "MAX_SHIFT \<equiv> 31"
abbreviation MAX_BUCKETS :: u32 where "MAX_BUCKETS \<equiv> 2 ^ 31"
abbreviation MIN_NUMS_BITS :: nat where "MIN_NUMS_BITS \<equiv> 10"

text \<open>
  Modelled from the spec: the bucket vector and its accessors (\<open>cap_at\<close>, \<open>idx2id\<close>,
  \<open>id2idx\<close>, \<open>fib_at\<close>, \<open>fib_set_at\<close>, \<open>fib_lenp_at\<close>, \<open>fib_of\<close>), which the
  distribution core receives as callbacks and whose implementation is not among the
  sources. A bucket exposes a capacity, a 64-bit identifier and a fiber slot (a pointer
  to an array of slot numbers, null when no fiber is attached, and its length);
  \<open>idx2id\<close> and \<open>id2idx\<close> convert between a position in the current vector and the
  identifier of the brick there. An identifier that no brick of the vector has is
  outside the domain of \<open>id2idx\<close>.
\<close>

record bucket =
  b_id :: u64
  b_cap :: u64
  b_fib :: "u32 list option"
  b_fib_len :: u64

definition cap_at :: "bucket list \<Rightarrow> nat \<Rightarrow> fault + u64" where
  "cap_at vec i = bnd (rd vec i) (\<lambda>b. Inr (b_cap b))"

definition idx2id :: "bucket list \<Rightarrow> nat \<Rightarrow> fault + u64" where
  "idx2id vec i = bnd (rd vec i) (\<lambda>b. Inr (b_id b))"

definition id2idx :: "bucket list \<Rightarrow> u64 \<Rightarrow> fault + nat" where
  "id2idx vec ident =
     (case filter (\<lambda>i. b_id (vec ! i) = ident) [0..<length vec] of
        [] \<Rightarrow> Inl OutOfBounds
      | i # _ \<Rightarrow> Inr i)"

definition fib_at :: "bucket list \<Rightarrow> nat \<Rightarrow> fault + u32 list option" where
  "fib_at vec i = bnd (rd vec i) (\<lambda>b. Inr (b_fib b))"

definition fib_set_at :: "bucket list \<Rightarrow> nat \<Rightarrow> u32 list option \<Rightarrow> fault + bucket list" where
  "fib_set_at vec i fib = bnd (rd vec i) (\<lambda>b. wr vec i (b\<lparr>b_fib := fib\<rparr>))"

definition fib_len_set_at :: "bucket list \<Rightarrow> nat \<Rightarrow> u64 \<Rightarrow> fault + bucket list" where
  "fib_len_set_at vec i len = bnd (rd vec i) (\<lambda>b. wr vec i (b\<lparr>b_fib_len := len\<rparr>))"

definition fib_of :: "bucket \<Rightarrow> u32 list option" where
  "fib_of b = b_fib b"

text \<open>Reading and writing through a pointer that may be null.\<close>

definition deref :: "'a option \<Rightarrow> fault + 'a" where
  "deref p = (case p of None \<Rightarrow> Inl NullPointer | Some x \<Rightarrow> Inr x)"

definition rdp :: "'a list option \<Rightarrow> nat \<Rightarrow> fault + 'a" where
  "rdp p i = bnd (deref p) (\<lambda>xs. rd xs i)"

text \<open>
  The element of fiber \<open>i\<close> at position \<open>k\<close>: \<open>fib = fiber_at(vec, i); fib[k]\<close>.
\<close>

definition fib_el :: "bucket list \<Rightarrow> nat \<Rightarrow> nat \<Rightarrow> fault + u32" where
  "fib_el vec i k = bnd (fib_at vec i) (\<lambda>fib. rdp fib k)"

text \<open>
  The environment of the core: whether an allocation of a given number of elements
  succeeds (\<open>reiser4_vmalloc\<close>), and the space occupied on the volume
  (\<open>space_occupied\<close>).
\<close>

record env =
  alloc_ok :: "nat \<Rightarrow> bool"
  space_occupied :: u64

definition fsx32_alloc :: "env \<Rightarrow> nat \<Rightarrow> u32 list option" where
  "fsx32_alloc e len = (if alloc_ok e len then Some (replicate len 0) else None)"

definition fsx64_alloc :: "env \<Rightarrow> nat \<Rightarrow> u64 list option" where
  "fsx64_alloc e len = (if alloc_ok e len then Some (replicate len 0) else None)"

text \<open>
  \<open>struct fsx32_dcx\<close>: the number of buckets, the logarithm of the number of slots,
  the weights and the working copy of the system table. Its scratch pointers
  (\<open>new_weights\<close>, \<open>exc\<close>, \<open>sho\<close>) are written and never read in this file and are
  left out. The state of the core is the context together with the current bucket
  vector (\<open>current_buckets()\<close>).
\<close>

record fsx32_dcx =
  dcx_numb :: u32
  dcx_nums_bits :: nat
  dcx_weights :: "u32 list option"
  dcx_tab :: "u32 list option"

record fsx_state =
  dcx :: fsx32_dcx
  buckets :: "bucket list"

section \<open>Fibers and tables (fsx32.c)\<close>

definition init_fibers_by_tab ::
  "nat \<Rightarrow> nat \<Rightarrow> u32 list \<Rightarrow> bucket list \<Rightarrow> u32 list \<Rightarrow> fault + bucket list \<times> u32 list" where
  "init_fibers_by_tab numb nums_bits tab vec weights =
     bnd (for_loop 0 numb (\<lambda>i weights. wr weights i 0) weights) (\<lambda>weights.
     for_loop 0 (2 ^ nums_bits) (\<lambda>i (vec, weights).
       bnd (rd tab i) (\<lambda>ident.
       bnd (id2idx vec (ucast ident)) (\<lambda>idx.
       bnd (fib_at vec idx) (\<lambda>fibp.
       bnd (deref fibp) (\<lambda>fib.
       bnd (rd weights idx) (\<lambda>w.
       bnd (wr fib (unat w) (of_nat i)) (\<lambda>fib.
       bnd (wr weights idx (w + 1)) (\<lambda>weights.
       bnd (fib_set_at vec idx (Some fib)) (\<lambda>vec.
       Inr (vec, weights)))))))))) (vec, weights))"

definition clone_systab :: "env \<Rightarrow> fsx32_dcx \<Rightarrow> u32 list \<Rightarrow> fault + int \<times> fsx32_dcx" where
  "clone_systab e d t =
     (case fsx32_alloc e (2 ^ dcx_nums_bits d) of
        None \<Rightarrow> Inr (- ENOMEM, d\<lparr>dcx_tab := None\<rparr>)
      | Some new \<Rightarrow>
          if length t < 2 ^ dcx_nums_bits d then Inl OutOfBounds
          else Inr (0, d\<lparr>dcx_tab := Some (take (2 ^ dcx_nums_bits d) t)\<rparr>))"

definition free_cloned_systab :: "fsx32_dcx \<Rightarrow> fsx32_dcx" where
  "free_cloned_systab d = d\<lparr>dcx_tab := None\<rparr>"

definition create_fibers ::
  "env \<Rightarrow> nat \<Rightarrow> u32 list \<Rightarrow> nat \<Rightarrow> u32 list \<Rightarrow> bucket list \<Rightarrow>
     fault + int \<times> bucket list \<times> u32 list" where
  "create_fibers e nums_bits tab new_numb new_weights vec =
     bnd (for_loop 0 new_numb (\<lambda>i (ret, vec).
            if ret \<noteq> 0 then Inr (ret, vec)
            else bnd (rd new_weights i) (\<lambda>w.
              case fsx32_alloc e (unat w) of
                None \<Rightarrow> Inr (- ENOMEM, vec)
              | Some fib \<Rightarrow>
                  bnd (fib_set_at vec i (Some fib)) (\<lambda>vec.
                  bnd (fib_len_set_at vec i (ucast w)) (\<lambda>vec.
                  Inr (0, vec))))) (0, vec)) (\<lambda>(ret, vec).
     if ret \<noteq> 0 then Inr (ret, vec, new_weights)
     else bnd (init_fibers_by_tab new_numb nums_bits tab vec new_weights) (\<lambda>(vec, new_weights).
       Inr (0, vec, new_weights)))"

definition release_fibers :: "nat \<Rightarrow> bucket list \<Rightarrow> fault + bucket list" where
  "release_fibers numb vec = for_loop 0 numb (\<lambda>i vec. fib_set_at vec i None) vec"

definition replace_fibers ::
  "env \<Rightarrow> nat \<Rightarrow> u32 list \<Rightarrow> nat \<Rightarrow> nat \<Rightarrow> u32 list \<Rightarrow> bucket list \<Rightarrow>
     fault + int \<times> bucket list \<times> u32 list" where
  "replace_fibers e nums_bits tab old_numb new_numb new_weights vec =
     bnd (release_fibers old_numb vec) (\<lambda>vec.
     create_fibers e nums_bits tab new_numb new_weights vec)"

section \<open>Rebalancing (fsx32.c, balance_inc, balance_dec, balance_spl)\<close>

text \<open>
  The assertions of the source are compiled out unless \<open>REISER4_DEBUG\<close> is set; they
  are no branches of the model. \<open>FSX32_PRECISE\<close> is 0, so the branches it guards are
  dead. A loop whose body holds an assertion only still evaluates its bound and its
  call of \<open>fiber_at\<close>.
\<close>

definition excess_left :: "u32 list option \<Rightarrow> u32 list \<Rightarrow> nat \<Rightarrow> u32 list \<Rightarrow> fault + u32 list" where
  "excess_left old_weights new_weights i exc =
     bnd (rdp old_weights i) (\<lambda>ow.
     bnd (rd new_weights i) (\<lambda>nw.
     wr exc i (ow - nw)))"

definition excess_right ::
  "bool \<Rightarrow> u32 list option \<Rightarrow> u32 list \<Rightarrow> nat \<Rightarrow> u32 list \<Rightarrow> fault + u32 list" where
  "excess_right has_new old_weights new_weights i exc =
     bnd (rdp old_weights (if has_new then unat ((of_nat i :: u32) - 1) else i)) (\<lambda>ow.
     bnd (rd new_weights i) (\<lambda>nw.
     wr exc i (ow - nw)))"

text \<open>
  \<open>for (j = 0; j < exc[i]; j++) tab[fib[new_weights[i] + j]] = idx2id(target_pos)\<close>,
  with \<open>fib\<close> the fiber of bucket \<open>i\<close>.
\<close>

definition steal_segments ::
  "bucket list \<Rightarrow> u32 list \<Rightarrow> u32 list \<Rightarrow> u32 \<Rightarrow> nat \<Rightarrow> u32 list \<Rightarrow> fault + u32 list" where
  "steal_segments vec new_weights exc target_pos i tab =
     bnd (rd exc i) (\<lambda>e.
     for_loop 0 (unat e) (\<lambda>j tab.
       bnd (rd new_weights i) (\<lambda>nw.
       bnd (fib_el vec i (unat (nw + of_nat j))) (\<lambda>slot.
       bnd (idx2id vec (unat target_pos)) (\<lambda>ident.
       wr tab (unat slot) (ucast ident))))) tab)"

text \<open>The loop that only asserts: \<open>for (j = 0; j < n; j++) fib = fiber_at(vec, i);\<close>\<close>

definition touch_fiber :: "bucket list \<Rightarrow> nat \<Rightarrow> u32 \<Rightarrow> 's \<Rightarrow> fault + 's" where
  "touch_fiber vec i n s = for_loop 0 (unat n) (\<lambda>j s. bnd (fib_at vec i) (\<lambda>fib. Inr s)) s"

definition balance_inc ::
  "env \<Rightarrow> u32 \<Rightarrow> u32 list \<Rightarrow> u32 list option \<Rightarrow> u32 list \<Rightarrow> u32 \<Rightarrow> bucket list \<Rightarrow>
     bucket option \<Rightarrow> fault + int \<times> u32 list" where
  "balance_inc e new_numb tab old_weights new_weights target_pos vec new =
     (case fsx32_alloc e (unat new_numb) of
        None \<Rightarrow> Inr (- ENOMEM, tab)
      | Some exc \<Rightarrow>
          bnd (for_loop 0 (unat target_pos) (excess_left old_weights new_weights) exc) (\<lambda>exc.
          bnd (for_loop (unat (target_pos + 1)) (unat new_numb)
                 (excess_right (new \<noteq> None) old_weights new_weights) exc) (\<lambda>exc.
          bnd (for_loop 0 (unat target_pos)
                 (steal_segments vec new_weights exc target_pos) tab) (\<lambda>tab.
          bnd (for_loop (unat (target_pos + 1)) (unat new_numb) (\<lambda>i tab.
                 bnd (rd new_weights i) (\<lambda>nw.
                 bnd (touch_fiber vec i nw tab) (\<lambda>tab.
                 steal_segments vec new_weights exc target_pos i tab))) tab) (\<lambda>tab.
          Inr (0, tab))))))"

definition shortage_left :: "u32 list option \<Rightarrow> u32 list \<Rightarrow> nat \<Rightarrow> u32 list \<Rightarrow> fault + u32 list" where
  "shortage_left old_weights new_weights i sho =
     bnd (rd new_weights i) (\<lambda>nw.
     bnd (rdp old_weights i) (\<lambda>ow.
     wr sho i (nw - ow)))"

definition shortage_right ::
  "bool \<Rightarrow> u32 list option \<Rightarrow> u32 list \<Rightarrow> nat \<Rightarrow> u32 list \<Rightarrow> fault + u32 list" where
  "shortage_right has_victim old_weights new_weights i sho =
     bnd (rd new_weights i) (\<lambda>nw.
     bnd (rdp old_weights (if has_victim then i + 1 else i)) (\<lambda>ow.
     wr sho i (nw - ow)))"

text \<open>
  \<open>for (j = 0; j < sho[i]; j++) tab[target[off_in_target++]] = idx2id(i)\<close>; the state is
  the table and \<open>off_in_target\<close>.
\<close>

definition hand_out ::
  "bucket list \<Rightarrow> u32 list option \<Rightarrow> u32 list \<Rightarrow> nat \<Rightarrow> u32 list \<times> u32 \<Rightarrow>
     fault + u32 list \<times> u32" where
  "hand_out vec target sho i s =
     bnd (rd sho i) (\<lambda>n.
     for_loop 0 (unat n) (\<lambda>j (tab, off_in_target).
       bnd (rdp target (unat off_in_target)) (\<lambda>slot.
       bnd (idx2id vec i) (\<lambda>ident.
       bnd (wr tab (unat slot) (ucast ident)) (\<lambda>tab.
       Inr (tab, off_in_target + 1))))) s)"

text \<open>
  The body of \<open>balance_dec\<close> after its first statement.
\<close>

definition balance_dec_body ::
  "env \<Rightarrow> u32 \<Rightarrow> u32 list \<Rightarrow> u32 list option \<Rightarrow> u32 list \<Rightarrow> u32 \<Rightarrow> bucket list \<Rightarrow>
     bucket option \<Rightarrow> fault + int \<times> u32 list" where
  "balance_dec_body e new_numb tab old_weights new_weights target_pos vec removeme =
     (case fsx32_alloc e (unat new_numb) of
        None \<Rightarrow> Inr (- ENOMEM, tab)
      | Some sho \<Rightarrow>
          bnd (for_loop 0 (unat target_pos) (shortage_left old_weights new_weights) sho) (\<lambda>sho.
          bnd (for_loop (unat target_pos) (unat new_numb)
                 (shortage_right (removeme \<noteq> None) old_weights new_weights) sho) (\<lambda>sho.
          bnd (case removeme of
                 Some b \<Rightarrow> Inr (fib_of b, 0)
               | None \<Rightarrow>
                   bnd (fib_at vec (unat target_pos)) (\<lambda>target.
                   bnd (rdp old_weights (unat target_pos)) (\<lambda>ow.
                   bnd (rd new_weights (unat target_pos)) (\<lambda>nw.
                   Inr (target, ow - nw))))) (\<lambda>(target, off_in_target).
          bnd (for_loop 0 (unat target_pos) (hand_out vec target sho) (tab, off_in_target))
            (\<lambda>s.
          bnd (for_loop (unat target_pos) (unat new_numb) (\<lambda>i s.
                 bnd (rdp old_weights (i + 1)) (\<lambda>ow.
                 bnd (touch_fiber vec i ow s) (\<lambda>s.
                 hand_out vec target sho i s))) s) (\<lambda>(tab, off_in_target).
          Inr (0, tab)))))))"

text \<open>
  \<open>balance_dec\<close> starts with \<open>u32 victim_id = ((reiser4_subvol *)removeme)->id\<close>,
  which reads through \<open>removeme\<close> before any test of it.
\<close>

definition balance_dec ::
  "env \<Rightarrow> u32 \<Rightarrow> u32 list \<Rightarrow> u32 list option \<Rightarrow> u32 list \<Rightarrow> u32 \<Rightarrow> bucket list \<Rightarrow>
     bucket option \<Rightarrow> fault + int \<times> u32 list" where
  "balance_dec e new_numb tab old_weights new_weights target_pos vec removeme =
     bnd (deref removeme) (\<lambda>victim.
     let victim_id = (ucast (b_id victim) :: u32) in
     balance_dec_body e new_numb tab old_weights new_weights target_pos vec removeme)"

text \<open>
  \<open>balance_spl\<close>. The array \<open>exc\<close> has \<open>numb\<close> entries and \<open>sho\<close> points into it
  at \<open>num_exc\<close>. The result is the return code, \<open>*tabp\<close>, \<open>old_weights\<close> (scaled in
  place) and the bucket vector. \<open>nums_bits\<close> and \<open>fact_bits\<close> are \<open>u32\<close>:
  \<open>nums = 1 << nums_bits\<close> and \<open>factor = 1 << fact_bits\<close> are undefined for a count
  of 32 or more, and \<open>nums_bits + fact_bits\<close> is a sum of 32-bit unsigned integers,
  which wraps.
\<close>

definition spl_excess ::
  "u32 \<Rightarrow> u32 list option \<Rightarrow> u32 list \<Rightarrow> u32 \<Rightarrow> u32 \<Rightarrow> u32 list \<Rightarrow> fault + u32 list" where
  "spl_excess factor old_weights new_weights num_exc num_sho exc =
     bnd (for_loop 0 (unat num_exc) (\<lambda>i exc.
            bnd (rdp old_weights i) (\<lambda>ow.
            bnd (rd new_weights i) (\<lambda>nw.
            wr exc i (factor * ow - nw)))) exc) (\<lambda>exc.
     for_loop 0 (unat num_sho) (\<lambda>i exc.
       bnd (rd new_weights i) (\<lambda>nw.
       bnd (rdp old_weights i) (\<lambda>ow.
       wr exc (unat num_exc + i) (nw - factor * ow)))) exc)"

definition spl_stretch :: "u32 \<Rightarrow> u32 \<Rightarrow> u32 list option \<Rightarrow> u32 list \<Rightarrow> fault + u32 list" where
  "spl_stretch nums factor tabp tab =
     for_loop 0 (unat nums) (\<lambda>i tab.
       for_loop 0 (unat factor) (\<lambda>j tab.
         bnd (rdp tabp i) (\<lambda>v.
         wr tab (unat ((of_nat i :: u32) * factor + of_nat j)) v)) tab) tab"

definition spl_gather ::
  "bucket list \<Rightarrow> u32 list \<Rightarrow> u32 list \<Rightarrow> u32 \<Rightarrow> u32 list \<Rightarrow> fault + u32 list \<times> u32" where
  "spl_gather vec new_weights exc num_exc reloc =
     for_loop 0 (unat num_exc) (\<lambda>i s.
       bnd (rd exc i) (\<lambda>n.
       for_loop 0 (unat n) (\<lambda>j (reloc, k).
         bnd (rd new_weights i) (\<lambda>nw.
         bnd (fib_el vec i (unat (nw + of_nat j))) (\<lambda>slot.
         bnd (wr reloc (unat k) slot) (\<lambda>reloc.
         Inr (reloc, k + 1))))) s)) (reloc, 0)"

definition spl_distribute ::
  "bucket list \<Rightarrow> u32 list \<Rightarrow> u32 \<Rightarrow> u32 \<Rightarrow> u32 list \<Rightarrow> u32 list \<Rightarrow> fault + u32 list \<times> u32" where
  "spl_distribute vec exc num_exc num_sho reloc tab =
     for_loop 0 (unat num_sho) (\<lambda>i s.
       bnd (rd exc (unat num_exc + i)) (\<lambda>n.
       for_loop 0 (unat n) (\<lambda>j (tab, k).
         bnd (rd reloc (unat k)) (\<lambda>slot.
         bnd (idx2id vec (unat (num_exc + of_nat i))) (\<lambda>ident.
         bnd (wr tab (unat slot) (ucast ident)) (\<lambda>tab.
         Inr (tab, k + 1))))) s)) (tab, 0)"

text \<open>The part of \<open>balance_spl\<close> that runs when the stretched table is not balanced.\<close>

definition spl_relocate ::
  "env \<Rightarrow> u32 \<Rightarrow> nat \<Rightarrow> u32 list \<Rightarrow> u32 list option \<Rightarrow> u32 list \<Rightarrow> u32 list \<Rightarrow>
     u32 \<Rightarrow> u32 \<Rightarrow> u32 \<Rightarrow> bucket list \<Rightarrow>
     fault + int \<times> u32 list option \<times> u32 list option \<times> bucket list" where
  "spl_relocate e numb new_bits tab old_weights new_weights exc num_exc num_sho factor vec =
     bnd (deref old_weights) (\<lambda>ow.
     bnd (for_loop 0 (unat numb) (\<lambda>i ow.
            bnd (rd ow i) (\<lambda>w. wr ow i (w * factor))) ow) (\<lambda>ow.
     bnd (replace_fibers e new_bits tab (unat numb) (unat numb) ow vec) (\<lambda>(ret, vec, ow).
     if ret \<noteq> 0 then Inr (ret, None, Some ow, vec)
     else
       bnd (for_loop 0 (unat num_exc) (\<lambda>i num_reloc.
              bnd (rd exc i) (\<lambda>x. Inr (num_reloc + x))) 0) (\<lambda>num_reloc.
       case fsx32_alloc e (unat num_reloc) of
         None \<Rightarrow> Inr (0, None, Some ow, vec)
       | Some reloc \<Rightarrow>
           bnd (spl_gather vec new_weights exc num_exc reloc) (\<lambda>(reloc, k).
           bnd (spl_distribute vec exc num_exc num_sho reloc tab) (\<lambda>(tab, k).
           bnd (release_fibers (unat numb) vec) (\<lambda>vec.
           Inr (0, Some tab, Some ow, vec))))))))"

definition balance_spl ::
  "env \<Rightarrow> u32 \<Rightarrow> nat \<Rightarrow> u32 list option \<Rightarrow> u32 list option \<Rightarrow> u32 list \<Rightarrow> u32 \<Rightarrow>
     bucket list \<Rightarrow> fault + int \<times> u32 list option \<times> u32 list option \<times> bucket list" where
  "balance_spl e numb nums_bits tabp old_weights new_weights fact_bits vec =
     (if 32 \<le> nums_bits \<or> 32 \<le> unat fact_bits then Inl ShiftOverflow
      else
      let nums = (2 ^ nums_bits :: u32); factor = (2 ^ unat fact_bits :: u32) in
      if numb = 0 then Inl DivideError
      else
        let num_exc = nums mod numb; num_sho = numb - num_exc in
        if num_exc \<noteq> 0 \<and> fsx32_alloc e (unat numb) = None
        then Inr (0, tabp, old_weights, vec)
        else
          bnd (if num_exc \<noteq> 0
               then spl_excess factor old_weights new_weights num_exc num_sho
                      (replicate (unat numb) 0)
               else Inr []) (\<lambda>exc.
          case fsx32_alloc e (unat (nums * factor)) of
            None \<Rightarrow> Inr (- ENOMEM, tabp, old_weights, vec)
          | Some tab \<Rightarrow>
              bnd (spl_stretch nums factor tabp tab) (\<lambda>tab.
              if num_exc = 0
              then bnd (release_fibers (unat numb) vec) (\<lambda>vec.
                   Inr (0, Some tab, old_weights, vec))
              else spl_relocate e numb (unat ((of_nat nums_bits :: u32) + fact_bits)) tab
                     old_weights new_weights
                     exc num_exc num_sho factor vec)))"

section \<open>Operations of the distribution core (fsx32.c)\<close>

definition donev_fsx32 :: "fsx32_dcx \<Rightarrow> fsx32_dcx" where
  "donev_fsx32 d = d\<lparr>dcx_weights := None\<rparr>"

text \<open>\<open>replace_fsx32\<close>: hand the freshly built table over; the result is the table and the context.\<close>

definition replace_fsx32 :: "fsx32_dcx \<Rightarrow> u32 list option \<times> fsx32_dcx" where
  "replace_fsx32 d = (dcx_tab d, d\<lparr>dcx_tab := None\<rparr>)"

text \<open>
  \<open>initr_fsx32(rdcx, tab, nums_bits)\<close>: the table \<open>*tab\<close> and the context; the result
  is the return code with both. \<open>nums_bits\<close> is an \<open>int\<close>, and \<open>1 << nums_bits\<close> is
  undefined for a count of 32 or more.
\<close>

definition initr_fsx32 ::
  "env \<Rightarrow> fsx32_dcx \<Rightarrow> u32 list option \<Rightarrow> int \<Rightarrow>
     fault + int \<times> u32 list option \<times> fsx32_dcx" where
  "initr_fsx32 e d t bits =
     (if t \<noteq> None then Inr (0, t, d)
      else if bits < int MIN_NUMS_BITS then Inr (- EINVAL, t, d)
      else if 32 \<le> bits then Inl ShiftOverflow
      else case fsx32_alloc e (2 ^ nat bits) of
             None \<Rightarrow> Inr (- ENOMEM, None, d)
           | Some new \<Rightarrow> Inr (0, Some new, d\<lparr>dcx_nums_bits := nat bits\<rparr>))"

text \<open>
  \<open>initv_fsx32(tab, numb, nums_bits, rdcx)\<close>. On an error the table \<open>*tab\<close> and the
  weights are freed (\<open>doner_fsx32\<close>, \<open>donev_fsx32\<close>). \<open>nums_bits\<close> is an \<open>int\<close>;
  a negative one passes the first test, and \<open>1 << nums_bits\<close> is undefined for it.
\<close>

definition initv_fsx32 ::
  "env \<Rightarrow> fsx_state \<Rightarrow> u32 list option \<Rightarrow> u64 \<Rightarrow> int \<Rightarrow>
     fault + int \<times> u32 list option \<times> fsx_state" where
  "initv_fsx32 e st t nb bits =
     (if nb = 0 \<or> int MAX_SHIFT \<le> bits then Inr (- EINVAL, t, st)
      else if bits < 0 then Inl ShiftOverflow
      else
        let nums = (2 ^ nat bits :: u32) in
        if ucast nums \<le> nb then Inr (- EINVAL, t, st)
        else
          let d = (dcx st)\<lparr>dcx_numb := ucast nb\<rparr> in
          case fsx32_alloc e (unat nb) of
            None \<Rightarrow> Inr (- ENOMEM, None, st\<lparr>dcx := donev_fsx32 d\<rparr>)
          | Some w \<Rightarrow>
              bnd (calibrate32 (ucast nb) nums (map b_cap (buckets st)) w) (\<lambda>w.
              bnd (if t = None
                   then bnd (initr_fsx32 e d t bits) (\<lambda>(ret, t, d).
                          if ret \<noteq> 0 then Inr (ret, t, d)
                          else bnd (deref t) (\<lambda>new.
                               bnd (for_loop 0 (unat nums) (\<lambda>i new.
                                      bnd (idx2id (buckets st) 0) (\<lambda>ident.
                                      wr new i (ucast ident))) new) (\<lambda>new.
                               Inr (0, Some new, d))))
                   else Inr (0, t, d)) (\<lambda>(ret, t, d).
              if ret \<noteq> 0 then Inr (ret, None, st\<lparr>dcx := donev_fsx32 d\<rparr>)
              else
                bnd (deref t) (\<lambda>cur.
                bnd (create_fibers e (nat bits) cur (unat nb) w (buckets st)) (\<lambda>(ret, vec, w).
                if ret \<noteq> 0
                then Inr (ret, None, \<lparr>dcx = donev_fsx32 d, buckets = vec\<rparr>)
                else Inr (0, t, \<lparr>dcx = d\<lparr>dcx_weights := Some w\<rparr>, buckets = vec\<rparr>))))))"

text \<open>
  \<open>inc_fsx32(rdcx, tab, target_pos, new)\<close>. The bucket vector is already the new one,
  with the added bucket at \<open>target_pos\<close>. \<open>balance_inc\<close> takes \<open>target_pos\<close> as a
  \<open>u32\<close>.
\<close>

definition inc_fsx32 ::
  "env \<Rightarrow> fsx_state \<Rightarrow> u32 list \<Rightarrow> u64 \<Rightarrow> bucket option \<Rightarrow> fault + int \<times> fsx_state" where
  "inc_fsx32 e st t target_pos new =
     (let d = dcx st; old_numb = dcx_numb d in
      if new \<noteq> None \<and> old_numb = MAX_BUCKETS then Inr (- EINVAL, st)
      else
        let new_numb = (if new \<noteq> None then old_numb + 1 else old_numb);
            nums = (2 ^ dcx_nums_bits d :: u32)
        in
        if nums < new_numb then Inr (- EINVAL, st)
        else
          case fsx32_alloc e (unat new_numb) of
            None \<Rightarrow> Inr (- ENOMEM, st\<lparr>dcx := free_cloned_systab d\<rparr>)
          | Some new_weights \<Rightarrow>
              bnd (clone_systab e d t) (\<lambda>(ret, d).
              if ret \<noteq> 0 then Inr (ret, st\<lparr>dcx := free_cloned_systab d\<rparr>)
              else
                bnd (calibrate32 new_numb nums (map b_cap (buckets st)) new_weights)
                  (\<lambda>new_weights.
                bnd (deref (dcx_tab d)) (\<lambda>work.
                bnd (balance_inc e new_numb work (dcx_weights d) new_weights (ucast target_pos)
                       (buckets st) new) (\<lambda>(ret, work).
                if ret \<noteq> 0 then Inr (ret, st\<lparr>dcx := free_cloned_systab d\<rparr>)
                else
                  bnd (release_fibers (unat new_numb) (buckets st)) (\<lambda>vec.
                  Inr (0, \<lparr>dcx = d\<lparr>dcx_numb := new_numb, dcx_weights := Some new_weights,
                                   dcx_tab := Some work\<rparr>,
                           buckets = vec\<rparr>)))))))"

definition check_space :: "env \<Rightarrow> bucket list \<Rightarrow> u64 \<Rightarrow> u64 \<Rightarrow> fault + int" where
  "check_space e vec nb occ =
     (case fsx64_alloc e (unat nb) of
        None \<Rightarrow> Inr (- ENOMEM)
      | Some vec_new_occ \<Rightarrow>
          bnd (calibrate64 nb occ (map b_cap vec) vec_new_occ) (\<lambda>vec_new_occ.
          for_loop 0 (unat nb) (\<lambda>i ret.
            if ret \<noteq> 0 then Inr ret
            else bnd (cap_at vec i) (\<lambda>c.
                 bnd (rd vec_new_occ i) (\<lambda>occ_i.
                 Inr (if c < occ_i then - ENOSPC else 0)))) 0))"

text \<open>
  \<open>dec_fsx32(rdcx, tab, target_pos, removeme)\<close>. The bucket vector is already the new
  one, without the removed bucket; \<open>removeme\<close> carries the fiber of the removed
  bucket. The result holds the return code, the state and \<open>removeme\<close>.
\<close>

definition dec_fsx32 ::
  "env \<Rightarrow> fsx_state \<Rightarrow> u32 list \<Rightarrow> u64 \<Rightarrow> bucket option \<Rightarrow>
     fault + int \<times> fsx_state \<times> bucket option" where
  "dec_fsx32 e st t target_pos removeme =
     (let d = dcx st;
          new_numb = (if removeme \<noteq> None then dcx_numb d - 1 else dcx_numb d)
      in
      bnd (check_space e (buckets st) (ucast new_numb) (space_occupied e)) (\<lambda>ret.
      if ret \<noteq> 0 then Inr (ret, st\<lparr>dcx := free_cloned_systab d\<rparr>, removeme)
      else
        let nums = (2 ^ dcx_nums_bits d :: u32) in
        case fsx32_alloc e (unat new_numb) of
          None \<Rightarrow> Inr (- ENOMEM, st\<lparr>dcx := free_cloned_systab d\<rparr>, removeme)
        | Some new_weights \<Rightarrow>
            bnd (clone_systab e d t) (\<lambda>(ret, d).
            if ret \<noteq> 0 then Inr (ret, st\<lparr>dcx := free_cloned_systab d\<rparr>, removeme)
            else
              bnd (calibrate32 new_numb nums (map b_cap (buckets st)) new_weights)
                (\<lambda>new_weights.
              bnd (deref (dcx_tab d)) (\<lambda>work.
              bnd (balance_dec e new_numb work (dcx_weights d) new_weights (ucast target_pos)
                     (buckets st) removeme) (\<lambda>(ret, work).
              if ret \<noteq> 0 then Inr (ret, st\<lparr>dcx := free_cloned_systab d\<rparr>, removeme)
              else
                bnd (release_fibers (unat new_numb) (buckets st)) (\<lambda>vec.
                bnd (deref removeme) (\<lambda>victim.
                Inr (0, \<lparr>dcx = d\<lparr>dcx_numb := new_numb, dcx_weights := Some new_weights,
                                 dcx_tab := Some work\<rparr>,
                         buckets = vec\<rparr>,
                     Some (victim\<lparr>b_fib := None\<rparr>))))))))))"

text \<open>
  \<open>spl_fsx32\<close>. The guard \<open>dcx->nums_bits + fact_bits > MAX_SHIFT\<close> adds the \<open>u32\<close>
  \<open>fact_bits\<close> in unsigned 32-bit arithmetic, so the sum wraps; \<open>new_bits\<close> is that
  sum, which the code computes three times.
\<close>

definition spl_fsx32 :: "env \<Rightarrow> fsx_state \<Rightarrow> u32 \<Rightarrow> fault + int \<times> fsx_state" where
  "spl_fsx32 e st fact_bits =
     (let d = dcx st;
          new_bits = unat ((of_nat (dcx_nums_bits d) :: u32) + fact_bits)
      in
      if MAX_SHIFT < new_bits then Inr (- EINVAL, st)
      else
        let new_nums = (2 ^ new_bits :: u32) in
        case fsx32_alloc e (unat (dcx_numb d)) of
          None \<Rightarrow> Inr (- ENOMEM, st)
        | Some new_weights \<Rightarrow>
            bnd (calibrate32 (dcx_numb d) new_nums (map b_cap (buckets st)) new_weights)
              (\<lambda>new_weights.
            bnd (balance_spl e (dcx_numb d) (dcx_nums_bits d) (dcx_tab d) (dcx_weights d) new_weights
                   fact_bits (buckets st)) (\<lambda>(ret, tabp, ow, vec).
            if ret \<noteq> 0
            then Inr (ret, \<lparr>dcx = d\<lparr>dcx_weights := ow, dcx_tab := tabp\<rparr>, buckets = vec\<rparr>)
            else Inr (0, \<lparr>dcx = d\<lparr>dcx_nums_bits := new_bits,
                                  dcx_weights := Some new_weights, dcx_tab := tabp\<rparr>,
                          buckets = vec\<rparr>))))"

section \<open>Serialization (fsx32.c, pack_fsx32 and unpack_fsx32)\<close>

text \<open>
  \<open>put_unaligned(cpu_to_le32(x), (d32 *)to)\<close> stores the four bytes of \<open>x\<close> at \<open>to\<close>,
  least significant first, whatever the byte order of the machine;
  \<open>le32_to_cpu(get_unaligned((d32 *)from))\<close> reads them back. The byte buffer is a
  list of bytes and the pointer into it an index.
\<close>

definition put_le32 :: "u8 list \<Rightarrow> nat \<Rightarrow> u32 \<Rightarrow> fault + u8 list" where
  "put_le32 buf p x =
     (if p + 4 \<le> length buf
      then Inr (buf[p := ucast x, p + 1 := ucast (drop_bit 8 x),
                    p + 2 := ucast (drop_bit 16 x), p + 3 := ucast (drop_bit 24 x)])
      else Inl OutOfBounds)"

definition get_le32 :: "u8 list \<Rightarrow> nat \<Rightarrow> fault + u32" where
  "get_le32 buf p =
     (if p + 4 \<le> length buf
      then Inr (ucast (buf ! p) OR push_bit 8 (ucast (buf ! (p + 1))) OR
                push_bit 16 (ucast (buf ! (p + 2))) OR push_bit 24 (ucast (buf ! (p + 3))))
      else Inl OutOfBounds)"

definition pack_fsx32 :: "fsx32_dcx \<Rightarrow> u8 list \<Rightarrow> u64 \<Rightarrow> u64 \<Rightarrow> fault + u8 list" where
  "pack_fsx32 d to src_off count =
     for_loop 0 (unat count) (\<lambda>i to.
       bnd (rdp (dcx_tab d) (unat src_off + i)) (\<lambda>v.
       put_le32 to (4 * i) v)) to"

definition unpack_fsx32 :: "u32 list \<Rightarrow> u8 list \<Rightarrow> u64 \<Rightarrow> u64 \<Rightarrow> fault + u32 list" where
  "unpack_fsx32 t from dst_off count =
     for_loop 0 (unat count) (\<lambda>i t.
       bnd (get_le32 from (4 * i)) (\<lambda>v.
       wr t (unat dst_off + i) v)) t"

section \<open>Volume operations (volume_ops.c)\<close>

text \<open>
  The opcode of \<open>struct reiser4_vol_op_args\<close>; \<open>OTHER_OP\<close> stands for every value
  that is none of the named ones.
\<close>

datatype vol_opcode =
    REISER4_REGISTER_BRICK | REISER4_UNREGISTER_BRICK | REISER4_VOLUME_HEADER
  | REISER4_BRICK_HEADER | REISER4_PRINT_VOLUME | REISER4_PRINT_BRICK
  | REISER4_RESIZE_BRICK | REISER4_ADD_BRICK | REISER4_ADD_PROXY | REISER4_REMOVE_BRICK
  | REISER4_SCALE_VOLUME | REISER4_BALANCE_VOLUME | REISER4_MIGRATE_FILE
  | REISER4_SET_FILE_IMMOBILE | REISER4_CLR_FILE_IMMOBILE | OTHER_OP int

text \<open>
  The mounted volume: its busy flag and everything else (\<open>'v\<close>: super block, volume
  configuration, transaction state, the file at hand).
\<close>

record 'v volume =
  busy :: bool
  vol :: 'v

text \<open>
  Modelled from the spec: \<open>reiser4_volume_test_set_busy\<close> and
  \<open>reiser4_volume_clear_busy\<close>, declared outside the sources: a test-and-set of the
  busy flag that returns its old value, and its reset.
\<close>

definition reiser4_volume_test_set_busy :: "'v volume \<Rightarrow> bool \<times> 'v volume" where
  "reiser4_volume_test_set_busy sb = (busy sb, sb\<lparr>busy := True\<rparr>)"

definition reiser4_volume_clear_busy :: "'v volume \<Rightarrow> 'v volume" where
  "reiser4_volume_clear_busy sb = sb\<lparr>busy := False\<rparr>"

text \<open>
  The operations the dispatchers call. Each works through the volume plugin, the
  transaction manager and the tree, none of which is among the sources; here each is
  any function from the volume to a return code and a volume.
\<close>

record 'v vol_ops =
  reiser4_print_volume :: "'v volume \<Rightarrow> int \<times> 'v volume"
  reiser4_print_brick :: "'v volume \<Rightarrow> int \<times> 'v volume"
  reiser4_resize_brick :: "'v volume \<Rightarrow> int \<times> 'v volume"
  reiser4_add_brick :: "bool \<Rightarrow> 'v volume \<Rightarrow> int \<times> 'v volume"
  reiser4_remove_brick :: "'v volume \<Rightarrow> int \<times> 'v volume"
  reiser4_scale_volume :: "'v volume \<Rightarrow> int \<times> 'v volume"
  reiser4_balance_volume :: "'v volume \<Rightarrow> int \<times> 'v volume"
  reiser4_migrate_file :: "'v volume \<Rightarrow> int \<times> 'v volume"
  reiser4_set_file_immobile :: "'v volume \<Rightarrow> int \<times> 'v volume"
  reiser4_clr_file_immobile :: "'v volume \<Rightarrow> int \<times> 'v volume"

definition reiser4_volume_op_dir ::
  "'v vol_ops \<Rightarrow> vol_opcode \<Rightarrow> 'v volume \<Rightarrow> int \<times> 'v volume" where
  "reiser4_volume_op_dir ops opcode sb =
     (case reiser4_volume_test_set_busy sb of
        (was_busy, sb) \<Rightarrow>
          if was_busy then (- EBUSY, sb)
          else
            (case (case opcode of
                     REISER4_PRINT_VOLUME \<Rightarrow> reiser4_print_volume ops sb
                   | REISER4_PRINT_BRICK \<Rightarrow> reiser4_print_brick ops sb
                   | REISER4_RESIZE_BRICK \<Rightarrow> reiser4_resize_brick ops sb
                   | REISER4_ADD_BRICK \<Rightarrow> reiser4_add_brick ops False sb
                   | REISER4_ADD_PROXY \<Rightarrow> reiser4_add_brick ops True sb
                   | REISER4_REMOVE_BRICK \<Rightarrow> reiser4_remove_brick ops sb
                   | REISER4_SCALE_VOLUME \<Rightarrow> reiser4_scale_volume ops sb
                   | REISER4_BALANCE_VOLUME \<Rightarrow> reiser4_balance_volume ops sb
                   | _ \<Rightarrow> (- ENOTTY, sb)) of
               (ret, sb) \<Rightarrow> (ret, reiser4_volume_clear_busy sb)))"

definition reiser4_volume_op_file ::
  "'v vol_ops \<Rightarrow> vol_opcode \<Rightarrow> 'v volume \<Rightarrow> int \<times> 'v volume" where
  "reiser4_volume_op_file ops opcode sb =
     (case reiser4_volume_test_set_busy sb of
        (was_busy, sb) \<Rightarrow>
          if was_busy then (- EBUSY, sb)
          else
            (case (case opcode of
                     REISER4_MIGRATE_FILE \<Rightarrow> reiser4_migrate_file ops sb
                   | REISER4_SET_FILE_IMMOBILE \<Rightarrow> reiser4_set_file_immobile ops sb
                   | REISER4_CLR_FILE_IMMOBILE \<Rightarrow> reiser4_clr_file_immobile ops sb
                   | _ \<Rightarrow> (- ENOTTY, sb)) of
               (ret, sb) \<Rightarrow> (ret, reiser4_volume_clear_busy sb)))"

section \<open>Extent migration (extent_volume_ops.c)\<close>

text \<open>
  The engine works on one extent item of the tree. Of the key of the item it reads the
  offset and the ordering (the id of the brick that owns the item). Offsets are file
  offsets, between 0 and \<open>2^63\<close>, so the arithmetic of \<open>loff_t\<close> and \<open>u64\<close> on them is
  that of the integers; the new location \<open>new_loc\<close> is a \<open>u32\<close>, the ids it is
  compared with are \<open>u64\<close>.
\<close>

datatype migration_primitive_id = INVALID_ACTION | MIGRATE_EXTENT | SPLIT_EXTENT | SKIP_EXTENT

abbreviation MIGRATION_GRANULARITY :: int where "MIGRATION_GRANULARITY \<equiv> 8192"

record reiser4_key =
  key_offset :: int
  key_ordering :: u64

text \<open>
  \<open>struct extent_migrate_context\<close>, with the key that \<open>mctx->key\<close> points to and the
  unit position of \<open>mctx->coord\<close>; the pinned pages, the inode and the lock handle
  are left to the environment.
\<close>

record extent_migrate_context =
  mctx_act :: migration_primitive_id
  mctx_nr_pages :: int
  mctx_unit_pos :: nat
  mctx_key :: reiser4_key
  mctx_new_loc :: u32
  mctx_stop_off :: int
  mctx_done_off :: int
  mctx_blocks_migrated :: nat
  mctx_unit_split_pos :: int
  mctx_migrate_whole_item :: bool
  mctx_stop :: bool

text \<open>
  What the engine calls and this repository's sources do not hold (the tree, the node
  plugin, the page cache, the transaction manager), over a tree \<open>'t\<close>:
  the migration mode, the stripe size and the page shift; \<open>calc_data_subvol\<close>, the id
  of the brick that the current distribution gives to a file offset;
  \<open>reiser4_extent_size\<close> of the item at the coord; \<open>lookup_extent\<close> followed by
  \<open>unit_key_by_coord\<close>, which give the position of the unit that holds an offset and
  the offset of its key; \<open>zload\<close>; \<open>try_merge_with_right_item\<close>. The two primitives
  \<open>do_split_extent\<close> and \<open>do_migrate_extent\<close> consist of calls into those layers
  and are taken as they come: a return code, the context and the tree.
\<close>

record 't migrate_env =
  nosplit_migration_mode :: bool
  current_stripe_size :: int
  PAGE_SHIFT :: nat
  calc_data_subvol :: "int \<Rightarrow> u64"
  reiser4_extent_size :: "'t \<Rightarrow> int"
  lookup_extent :: "'t \<Rightarrow> int \<Rightarrow> nat \<times> int"
  zload :: "'t \<Rightarrow> int"
  try_merge_with_right_item :: "'t \<Rightarrow> 't"
  do_split_extent :: "extent_migrate_context \<Rightarrow> 't \<Rightarrow> int \<times> extent_migrate_context \<times> 't"
  do_migrate_extent :: "extent_migrate_context \<Rightarrow> 't \<Rightarrow> int \<times> extent_migrate_context \<times> 't"

definition init_migration_context :: "reiser4_key \<Rightarrow> extent_migrate_context" where
  "init_migration_context k =
     \<lparr>mctx_act = INVALID_ACTION, mctx_nr_pages = 0, mctx_unit_pos = 0, mctx_key = k,
      mctx_new_loc = 0, mctx_stop_off = 0, mctx_done_off = 0, mctx_blocks_migrated = 0,
      mctx_unit_split_pos = 0, mctx_migrate_whole_item = False, mctx_stop = False\<rparr>"

definition reset_migration_context :: "extent_migrate_context \<Rightarrow> extent_migrate_context" where
  "reset_migration_context m =
     m\<lparr>mctx_act := INVALID_ACTION, mctx_nr_pages := 0, mctx_stop := False,
       mctx_unit_split_pos := 0, mctx_blocks_migrated := 0,
       mctx_migrate_whole_item := False\<rparr>"

definition what_to_do_nosplit ::
  "'t migrate_env \<Rightarrow> u64 option \<Rightarrow> extent_migrate_context \<Rightarrow> 't \<Rightarrow> extent_migrate_context" where
  "what_to_do_nosplit E dst_id m0 t =
     (let m = reset_migration_context m0;
          k = mctx_key m;
          m = m\<lparr>mctx_new_loc :=
                 (case dst_id of
                    Some d \<Rightarrow> ucast d
                  | None \<Rightarrow> ucast (calc_data_subvol E (key_offset k)))\<rparr>
      in
      if key_ordering k = ucast (mctx_new_loc m)
      then m\<lparr>mctx_unit_pos := 0, mctx_stop_off := key_offset k, mctx_stop := True,
             mctx_act := SKIP_EXTENT\<rparr>
      else if reiser4_extent_size E t \<le> MIGRATION_GRANULARITY * 2 ^ PAGE_SHIFT E
      then m\<lparr>mctx_unit_pos := 0, mctx_stop_off := key_offset k,
             mctx_migrate_whole_item := True, mctx_act := MIGRATE_EXTENT\<rparr>
      else
        let stop_off = key_offset k + reiser4_extent_size E t
                         - MIGRATION_GRANULARITY * 2 ^ PAGE_SHIFT E;
            (pos, unit_off) = lookup_extent E t stop_off
        in m\<lparr>mctx_stop_off := stop_off, mctx_unit_pos := pos,
             mctx_unit_split_pos := (stop_off - unit_off) div 2 ^ PAGE_SHIFT E,
             mctx_migrate_whole_item := False, mctx_act := MIGRATE_EXTENT\<rparr>)"

text \<open>
  The loop of \<open>what_to_do\<close> that walks the stripes of the item from the right:
  \<open>while (off1 < off2) { off2 -= current_stripe_size; if (calc_data_subvol(inode,
  off2)->id != mctx->new_loc) { split_off = off2 + current_stripe_size; goto
  split_off_found; } }\<close>. The result is the split offset, if one was found; a walk
  that does not end has no result (\<open>None\<close>).
\<close>

partial_function (option) split_scan ::
  "(int \<Rightarrow> u64) \<Rightarrow> int \<Rightarrow> u32 \<Rightarrow> int \<Rightarrow> int \<Rightarrow> int option option" where
  "split_scan calc stripe loc off1 off2 =
     (if off1 < off2
      then (if calc (off2 - stripe) \<noteq> ucast loc
            then Some (Some (off2 - stripe + stripe))
            else split_scan calc stripe loc off1 (off2 - stripe))
      else Some None)"

definition what_to_do ::
  "'t migrate_env \<Rightarrow> u64 option \<Rightarrow> extent_migrate_context \<Rightarrow> 't \<Rightarrow>
     extent_migrate_context option" where
  "what_to_do E dst_id m0 t =
     (if nosplit_migration_mode E then Some (what_to_do_nosplit E dst_id m0 t)
      else
        let m = reset_migration_context m0;
            k = mctx_key m;
            off1 = key_offset k;
            off2 = off1 + reiser4_extent_size E t - 1;
            off1 = off1 - (off1 AND (current_stripe_size E - 1));
            off2 = off2 - (off2 AND (current_stripe_size E - 1));
            m = m\<lparr>mctx_new_loc :=
                   (case dst_id of
                      Some d \<Rightarrow> ucast d
                    | None \<Rightarrow> ucast (calc_data_subvol E off2))\<rparr>
        in
        Option.bind
          (split_scan (calc_data_subvol E) (current_stripe_size E) (mctx_new_loc m) off1 off2)
          (\<lambda>found.
             case found of
               None \<Rightarrow>
                 let m = m\<lparr>mctx_unit_pos := 0, mctx_stop_off := key_offset k\<rparr> in
                 if ucast (mctx_new_loc m) \<noteq> key_ordering k
                 then Some (m\<lparr>mctx_migrate_whole_item := True, mctx_act := MIGRATE_EXTENT\<rparr>)
                 else Some (m\<lparr>mctx_stop := True, mctx_act := SKIP_EXTENT\<rparr>)
             | Some split_off \<Rightarrow>
                 let (pos, unit_off) = lookup_extent E t split_off;
                     m = m\<lparr>mctx_stop_off := split_off, mctx_unit_pos := pos,
                           mctx_unit_split_pos := (split_off - unit_off) div 2 ^ PAGE_SHIFT E\<rparr>
                 in
                 if ucast (mctx_new_loc m) \<noteq> key_ordering k
                 then Some (m\<lparr>mctx_migrate_whole_item := False, mctx_act := MIGRATE_EXTENT\<rparr>)
                 else Some (m\<lparr>mctx_act := SPLIT_EXTENT\<rparr>)))"

text \<open>
  \<open>reiser4_migrate_extent\<close>: the loop over the primitives. Its state is the context,
  the tree, the caller's \<open>*done_off\<close> and the local count \<open>blocks_migrated\<close>; the
  result is the return code with the state. \<open>impossible()\<close> panics, so a context
  with no action assigned has no result.
\<close>

record 't migrate_state =
  ms_mctx :: extent_migrate_context
  ms_tree :: 't
  ms_done_off :: int
  ms_blocks_migrated :: nat

partial_function (option) migrate_loop ::
  "'t migrate_env \<Rightarrow> u64 option \<Rightarrow> 't migrate_state \<Rightarrow> (int \<times> 't migrate_state) option" where
  "migrate_loop E dst_id s =
     (if mctx_stop (ms_mctx s) then Some (0, s)
      else
        Option.bind (what_to_do E dst_id (ms_mctx s) (ms_tree s)) (\<lambda>m.
          case mctx_act m of
            SKIP_EXTENT \<Rightarrow>
              if zload E (ms_tree s) \<noteq> 0
              then Some (zload E (ms_tree s), s\<lparr>ms_mctx := m\<rparr>)
              else Some (0, s\<lparr>ms_mctx := m,
                              ms_tree := try_merge_with_right_item E (ms_tree s),
                              ms_done_off := mctx_stop_off m\<rparr>)
          | SPLIT_EXTENT \<Rightarrow>
              (case do_split_extent E m (ms_tree s) of
                 (ret, m, t) \<Rightarrow>
                   if ret \<noteq> 0 then Some (ret, s\<lparr>ms_mctx := m, ms_tree := t\<rparr>)
                   else migrate_loop E dst_id (s\<lparr>ms_mctx := m, ms_tree := t\<rparr>))
          | MIGRATE_EXTENT \<Rightarrow>
              (case do_migrate_extent E m (ms_tree s) of
                 (ret, m, t) \<Rightarrow>
                   if ret \<noteq> 0 then Some (ret, s\<lparr>ms_mctx := m, ms_tree := t\<rparr>)
                   else migrate_loop E dst_id
                          (s\<lparr>ms_mctx := m, ms_tree := t, ms_done_off := mctx_done_off m,
                             ms_blocks_migrated :=
                               ms_blocks_migrated s + mctx_blocks_migrated m\<rparr>))
          | INVALID_ACTION \<Rightarrow> None))"

definition reiser4_migrate_extent ::
  "'t migrate_env \<Rightarrow> 't \<Rightarrow> reiser4_key \<Rightarrow> int \<Rightarrow> u64 option \<Rightarrow>
     (int \<times> 't migrate_state) option" where
  "reiser4_migrate_extent E t k done_off dst_id =
     migrate_loop E dst_id
       \<lparr>ms_mctx = init_migration_context k, ms_tree = t, ms_done_off = done_off,
        ms_blocks_migrated = 0\<rparr>"

section \<open>Well-formed inputs of inc and dec\<close>

text \<open>
  What the source leaves to its callers and to its assertions, written out to state
  the properties of \<open>inc\<close> and \<open>dec\<close>; none of this is code of the repository.
  \<open>diff_count\<close> is the number of slots at which two tables differ. A fiber is good
  for a table, an id and a weight when it lists that many slots of the table, each
  once, and each holds the id. The capacities are good for a budget when
  \<open>calibrate\<close> computes its shares without wrap-around.
\<close>

definition diff_count :: "'a list \<Rightarrow> 'a list \<Rightarrow> nat" where
  "diff_count xs ys = length (filter (\<lambda>s. xs ! s \<noteq> ys ! s) [0..<length xs])"

definition fiber_ok :: "u32 list \<Rightarrow> u32 \<Rightarrow> u32 \<Rightarrow> u32 list option \<Rightarrow> bool" where
  "fiber_ok t ident w fibp =
     (case fibp of
        None \<Rightarrow> False
      | Some fib \<Rightarrow>
          length fib = unat w \<and> distinct fib \<and>
          list_all (\<lambda>s. unat s < length t \<and> t ! unat s = ident) fib)"

definition caps_ok :: "nat \<Rightarrow> nat \<Rightarrow> bucket list \<Rightarrow> bool" where
  "caps_ok n val vec =
     (0 < n \<and> n \<le> length vec \<and>
      0 < sum_list (map (\<lambda>b. unat (b_cap b)) (take n vec)) \<and>
      sum_list (map (\<lambda>b. unat (b_cap b)) (take n vec)) < 2 ^ 64 \<and>
      list_all (\<lambda>b. val * unat (b_cap b) < 2 ^ 64) (take n vec))"

text \<open>
  The position in the old weights of the brick at position \<open>i\<close> of the new vector:
  \<open>inc\<close> with a new bucket at \<open>tp\<close> shifts the bricks to its right by one, \<open>dec\<close>
  of the bucket at \<open>tp\<close> closes the gap.
\<close>

definition inc_old_pos :: "bucket option \<Rightarrow> nat \<Rightarrow> nat \<Rightarrow> nat" where
  "inc_old_pos new tp i = (if new \<noteq> None \<and> tp < i then i - 1 else i)"

definition dec_old_pos :: "nat \<Rightarrow> nat \<Rightarrow> nat" where
  "dec_old_pos tp i = (if i < tp then i else i + 1)"

text \<open>
  \<open>inc\<close> is called on a context of at most \<open>MAX_BUCKETS\<close> buckets whose weights sum to
  the number of slots, with the new bucket vector (the added bucket at \<open>target_pos\<close>,
  ids distinct as stored in the table), and with the fibers of the other buckets built
  from the table passed in.
\<close>

definition inc_wf :: "fsx_state \<Rightarrow> u32 list \<Rightarrow> u64 \<Rightarrow> bucket option \<Rightarrow> bool" where
  "inc_wf st t target_pos new =
     (let d = dcx st; vec = buckets st; nb = dcx_nums_bits d; tp = unat target_pos;
          n_old = unat (dcx_numb d);
          n_new = (if new = None then n_old else n_old + 1)
      in
      nb \<le> 31 \<and> 2 ^ nb \<le> length t \<and> n_old \<le> 2 ^ 31 \<and> length vec = n_new \<and>
      tp < n_new \<and> distinct (map (\<lambda>b. ucast (b_id b) :: u32) vec) \<and>
      caps_ok n_new (2 ^ nb) vec \<and>
      (case dcx_weights d of
         None \<Rightarrow> False
       | Some ow \<Rightarrow>
           length ow = n_old \<and> sum_list (map unat ow) = 2 ^ nb \<and>
           list_all (\<lambda>i. i = tp \<or>
                       fiber_ok (take (2 ^ nb) t) (ucast (b_id (vec ! i)))
                         (ow ! inc_old_pos new tp i) (b_fib (vec ! i)))
             [0..<n_new]))"

text \<open>
  \<open>dec\<close> is called with the bucket vector from which the victim has been taken out and
  with the victim, whose fiber was built from the table passed in; its position
  \<open>target_pos\<close> is the one it had in the old vector.
\<close>

definition dec_wf :: "fsx_state \<Rightarrow> u32 list \<Rightarrow> u64 \<Rightarrow> bucket \<Rightarrow> bool" where
  "dec_wf st t target_pos victim =
     (let d = dcx st; vec = buckets st; nb = dcx_nums_bits d; tp = unat target_pos;
          n_old = unat (dcx_numb d)
      in
      nb \<le> 31 \<and> 2 ^ nb \<le> length t \<and> Suc (length vec) = n_old \<and> tp < n_old \<and>
      distinct (map (\<lambda>b. ucast (b_id b) :: u32) (victim # vec)) \<and>
      caps_ok (length vec) (2 ^ nb) vec \<and>
      (case dcx_weights d of
         None \<Rightarrow> False
       | Some ow \<Rightarrow>
           length ow = n_old \<and> sum_list (map unat ow) = 2 ^ nb \<and>
           fiber_ok (take (2 ^ nb) t) (ucast (b_id victim)) (ow ! tp) (b_fib victim)))"

section \<open>Properties\<close>

subsection \<open>The fault monad and the loop combinator\<close>

lemma bnd_Inr [simp]: "bnd (Inr x) f = f x" by (simp add: bnd_def)
lemma bnd_Inl [simp]: "bnd (Inl e) f = Inl e" by (simp add: bnd_def)

lemma bnd_eq_Inr: "bnd m f = Inr y \<longleftrightarrow> (\<exists>x. m = Inr x \<and> f x = Inr y)"
  by (cases m) auto

lemma for_loop_stop: "\<not> i < n \<Longrightarrow> for_loop i n body s = Inr s"
  by (simp add: for_loop.simps)

lemma for_loop_step: "i < n \<Longrightarrow> for_loop i n body s = bnd (body i s) (for_loop (Suc i) n body)"
  by (subst for_loop.simps) (simp add: bnd_def)

lemma for_loop_total:
  assumes "i \<le> n" and "P i s"
    and "\<And>k t. i \<le> k \<Longrightarrow> k < n \<Longrightarrow> P k t \<Longrightarrow> \<exists>t'. body k t = Inr t' \<and> P (Suc k) t'"
  shows "\<exists>s'. for_loop i n body s = Inr s' \<and> P n s'"
  using assms
proof (induction "n - i" arbitrary: i s)
  case 0
  then show ?case by (simp add: for_loop_stop)
next
  case (Suc d)
  then have lt: "i < n" by simp
  from Suc.prems(3)[OF order_refl lt Suc.prems(2)] obtain t' where
    t': "body i s = Inr t'" "P (Suc i) t'" by blast
  have "\<exists>s'. for_loop (Suc i) n body t' = Inr s' \<and> P n s'"
  proof (rule Suc.hyps(1))
    show "d = n - Suc i" using Suc.hyps(2) by simp
    show "Suc i \<le> n" using lt by simp
    show "P (Suc i) t'" by fact
    show "\<exists>t'. body k t = Inr t' \<and> P (Suc k) t'" if "Suc i \<le> k" "k < n" "P k t" for k t
      using Suc.prems(3)[of k t] that by simp
  qed
  then show ?case by (simp add: for_loop_step[OF lt] t')
qed

lemma for_loop_partial:
  assumes "for_loop i n body s = Inr s'" and "i \<le> n" and "P i s"
    and "\<And>k t t'. i \<le> k \<Longrightarrow> k < n \<Longrightarrow> P k t \<Longrightarrow> body k t = Inr t' \<Longrightarrow> P (Suc k) t'"
  shows "P n s'"
  using assms
proof (induction "n - i" arbitrary: i s)
  case 0
  then show ?case by (simp add: for_loop_stop)
next
  case (Suc d)
  then have lt: "i < n" by simp
  from Suc.prems(1) obtain t where t: "body i s = Inr t" "for_loop (Suc i) n body t = Inr s'"
    by (auto simp: for_loop_step[OF lt] bnd_eq_Inr)
  show ?case
  proof (rule Suc.hyps(1)[OF _ t(2)])
    show "d = n - Suc i" using Suc.hyps(2) by simp
    show "Suc i \<le> n" using lt by simp
    show "P (Suc i) t" using Suc.prems(4)[OF order_refl lt Suc.prems(3) t(1)] .
    show "P (Suc k) u'" if "Suc i \<le> k" "k < n" "P k u" "body k u = Inr u'" for k u u'
      using Suc.prems(4)[of k u u'] that by simp
  qed
qed


subsection \<open>Calibrator\<close>

lemma floor_sum_le:
  fixes c :: "nat \<Rightarrow> nat"
  assumes "0 < (\<Sum>k<n. c k)"
  shows "(\<Sum>k<n. v * c k div (\<Sum>k<n. c k)) \<le> v"
proof -
  let ?S = "\<Sum>k<n. c k"
  have "(\<Sum>k<n. v * c k div ?S) * ?S = (\<Sum>k<n. (v * c k div ?S) * ?S)"
    by (simp add: sum_distrib_right)
  also have "\<dots> \<le> (\<Sum>k<n. v * c k)"
    by (rule sum_mono) simp
  also have "\<dots> = v * ?S" by (simp add: sum_distrib_left)
  finally show ?thesis using assms by simp
qed

lemma floor_rest_less:
  fixes c :: "nat \<Rightarrow> nat"
  assumes "0 < (\<Sum>k<n. c k)" "0 < n"
  shows "v - (\<Sum>k<n. v * c k div (\<Sum>k<n. c k)) < n"
proof -
  let ?S = "\<Sum>k<n. c k"
  let ?f = "\<lambda>k. v * c k div ?S"
  have "v * ?S = (\<Sum>k<n. v * c k)" by (simp add: sum_distrib_left)
  also have "\<dots> = (\<Sum>k<n. ?f k * ?S + v * c k mod ?S)" by (simp only: div_mult_mod_eq)
  also have "\<dots> = (\<Sum>k<n. ?f k) * ?S + (\<Sum>k<n. v * c k mod ?S)"
    by (simp add: sum.distrib sum_distrib_right)
  finally have eq: "v * ?S = (\<Sum>k<n. ?f k) * ?S + (\<Sum>k<n. v * c k mod ?S)" .
  have "(\<Sum>k<n. v * c k mod ?S) < (\<Sum>k<n. ?S)"
    by (rule sum_strict_mono) (use assms in auto)
  then have "(\<Sum>k<n. v * c k mod ?S) < n * ?S" by simp
  with eq have "v * ?S < ((\<Sum>k<n. ?f k) + n) * ?S" by (simp add: add_mult_distrib)
  then have "v < (\<Sum>k<n. ?f k) + n" by simp
  then show ?thesis using assms(2) by linarith
qed

lemma unat_sum_no_wrap:
  fixes g :: "nat \<Rightarrow> 'a::len word"
  shows "(\<Sum>k<n. unat (g k)) < 2 ^ LENGTH('a) \<Longrightarrow> unat (\<Sum>k<n. g k) = (\<Sum>k<n. unat (g k))"
proof (induction n)
  case 0
  then show ?case by simp
next
  case (Suc n)
  then have "unat (\<Sum>k<n. g k) = (\<Sum>k<n. unat (g k))" by simp
  with Suc.prems show ?case by (simp add: unat_word_ariths)
qed

lemma calibrate_spec:
  fixes ret :: "'a::len word list"
  assumes n: "unat num \<le> length caps" "unat num \<le> length ret" "0 < unat num"
    and S: "0 < (\<Sum>k<unat num. unat (caps ! k))" "(\<Sum>k<unat num. unat (caps ! k)) < 2 ^ 64"
    and q: "\<forall>k<unat num. unat val * unat (caps ! k) < 2 ^ 64"
    and v: "unat val < 2 ^ LENGTH('a)"
  shows "\<exists>out. calibrate num val caps ret = Inr out \<and> length out = length ret \<and>
     (\<forall>i<length ret. unat (out ! i) =
        (if i < unat num
         then unat val * unat (caps ! i) div (\<Sum>k<unat num. unat (caps ! k)) +
              (if i < unat val - (\<Sum>j<unat num. unat val * unat (caps ! j) div (\<Sum>k<unat num. unat (caps ! k)))
               then 1 else 0)
         else unat (ret ! i)))"
proof -
  define n where "n = unat num"
  define Sn where "Sn = (\<Sum>k<n. unat (caps ! k))"
  define f where "f = (\<lambda>k. unat val * unat (caps ! k) div Sn)"
  define rest where "rest = unat val - (\<Sum>j<n. f j)"
  define Sw where "Sw = (\<Sum>k<n. caps ! k)"
  define res where "res = (\<lambda>k. val * (caps ! k) div Sw)"
  note n' = n[folded n_def] and S' = S[folded n_def, folded Sn_def] and q' = q[folded n_def]
  have Sw: "unat Sw = Sn"
    unfolding Sw_def Sn_def using S'(2) by (intro unat_sum_no_wrap) (simp add: Sn_def)
  have Sw0: "Sw \<noteq> 0" using Sw S'(1) by (auto simp: unat_eq_0)
  have res: "unat (res k) = f k" if "k < n" for k
  proof -
    have "unat (val * caps ! k) = unat val * unat (caps ! k)"
      using q' that by (intro unat_mult_lem[THEN iffD1]) simp
    then show ?thesis by (simp add: res_def f_def unat_div Sw)
  qed
  have fle: "(\<Sum>j<n. f j) \<le> unat val"
    unfolding f_def Sn_def using S'(1) by (intro floor_sum_le) (simp add: Sn_def)
  have restn: "rest < n"
    unfolding rest_def f_def Sn_def using S'(1) n'(3) by (intro floor_rest_less) (simp_all add: Sn_def)
  have vb: "unat val < 2 ^ 64" using unsigned_less[of val, where 'a = nat] by simp
  \<comment> \<open>first loop\<close>
  have l1: "for_loop 0 n (\<lambda>i s. bnd (rd caps i) (\<lambda>c. Inr (s + c))) 0 = Inr Sw"
  proof -
    have "\<exists>s'. for_loop 0 n (\<lambda>i s. bnd (rd caps i) (\<lambda>c. Inr (s + c))) 0 = Inr s'
            \<and> s' = (\<Sum>k<n. caps ! k)"
      by (rule for_loop_total[where P = "\<lambda>k s. s = (\<Sum>j<k. caps ! j)"])
         (use n'(1) in \<open>auto simp: rd_def\<close>)
    then show ?thesis by (simp add: Sw_def)
  qed
  \<comment> \<open>second loop\<close>
  let ?body2 = "\<lambda>i (r, ss). bnd (rd caps i) (\<lambda>c.
              let q = val * c in
              if Sw = 0 then Inl DivideError
              else let result = q div Sw in
                bnd (wr r i (ucast result)) (\<lambda>r. Inr (r, ss + result)))"
  let ?P2 = "\<lambda>k (r :: 'a word list, ss). length r = length ret \<and>
       (\<forall>j<length ret. r ! j = (if j < k then ucast (res j) else ret ! j)) \<and> ss = (\<Sum>j<k. res j)"
  have "\<exists>s'. for_loop 0 n ?body2 (ret, 0) = Inr s' \<and> ?P2 n s'"
  proof (rule for_loop_total[where P = ?P2])
    show "0 \<le> n" by simp
    show "?P2 0 (ret, 0)" by simp
    show "\<exists>t'. ?body2 k t = Inr t' \<and> ?P2 (Suc k) t'" if "0 \<le> k" "k < n" "?P2 k t" for k t
    proof -
      obtain r ss where t: "t = (r, ss)" by (cases t)
      have kl: "k < length caps" "k < length r" using that n' t by auto
      show ?thesis using that(3) kl Sw0
        by (auto simp: t rd_def wr_def res_def Let_def nth_list_update less_Suc_eq)
    qed
  qed
  then obtain r2 where l2: "for_loop 0 n ?body2 (ret, 0) = Inr (r2, \<Sum>j<n. res j)"
    and r2: "length r2 = length ret" "\<forall>j<length ret. r2 ! j = (if j < n then ucast (res j) else ret ! j)"
    by auto
  have ss: "unat (\<Sum>j<n. res j) = (\<Sum>j<n. f j)"
  proof -
    have "(\<Sum>j<n. unat (res j)) = (\<Sum>j<n. f j)" by (rule sum.cong) (simp_all add: res)
    moreover have "(\<Sum>j<n. f j) < 2 ^ 64" using fle vb by simp
    ultimately show ?thesis by (simp add: unat_sum_no_wrap)
  qed
  have urest: "unat (val - (\<Sum>j<n. res j)) = rest"
  proof -
    have "(\<Sum>j<n. res j) \<le> val" using fle ss by (simp add: word_le_nat_alt)
    then show ?thesis by (simp add: unat_sub ss rest_def)
  qed
  \<comment> \<open>third loop\<close>
  let ?body3 = "\<lambda>i (r :: 'a word list). bnd (rd r i) (\<lambda>v. wr r i (ucast ((ucast v :: u64) + 1)))"
  let ?P3 = "\<lambda>k (r :: 'a word list). length r = length ret \<and>
       (\<forall>j<length ret. r ! j = (if j < k then ucast ((ucast (r2 ! j) :: u64) + 1) else r2 ! j))"
  have "\<exists>s'. for_loop 0 rest ?body3 r2 = Inr s' \<and> ?P3 rest s'"
  proof (rule for_loop_total[where P = ?P3])
    show "0 \<le> rest" by simp
    show "?P3 0 r2" using r2 by simp
    show "\<exists>t'. ?body3 k t = Inr t' \<and> ?P3 (Suc k) t'" if "0 \<le> k" "k < rest" "?P3 k t" for k t
    proof -
      have kl: "k < length t" using that restn n' by auto
      show ?thesis using that(3) kl
        by (auto simp: rd_def wr_def nth_list_update less_Suc_eq)
    qed
  qed
  then obtain out where l3: "for_loop 0 rest ?body3 r2 = Inr out"
    and out: "length out = length ret" "\<forall>j<length ret. out ! j = (if j < rest then ucast ((ucast (r2 ! j) :: u64) + 1) else r2 ! j)"
    by auto
  have cal: "calibrate num val caps ret = Inr out"
    unfolding calibrate_def n_def[symmetric]
    apply (simp only: l1 bnd_Inr)
    apply (simp only: l2 bnd_Inr prod.case)
    apply (simp only: Let_def urest l3)
    done
  have val: "unat (out ! i) = (if i < n then f i + (if i < rest then 1 else 0) else unat (ret ! i))"
    if "i < length ret" for i
  proof (cases "i < n")
    case False
    then show ?thesis using out(2) r2(2) that restn by simp
  next
    case True
    have fi: "f i \<le> unat val"
    proof -
      have "f i \<le> (\<Sum>j<n. f j)" using True by (intro member_le_sum) auto
      then show ?thesis using fle by simp
    qed
    define w :: "'a word" where "w = ucast (res i)"
    have u1: "unat w = f i"
      unfolding w_def using fi v res[OF True] by (simp add: unsigned_ucast_eq take_bit_nat_eq_self)
    have r2i: "r2 ! i = w" using r2(2) that True by (simp add: w_def)
    show ?thesis
    proof (cases "i < rest")
      case False
      then show ?thesis using out(2) r2i that True u1 by simp
    next
      case r: True
      have "f i + 1 \<le> unat val"
      proof -
        have "(\<Sum>j<n. f j) + rest = unat val" using fle by (simp add: rest_def)
        moreover have "f i \<le> (\<Sum>j<n. f j)" using True by (intro member_le_sum) auto
        ultimately show ?thesis using r by simp
      qed
      then have lt: "f i + 1 < 2 ^ LENGTH('a)" "f i + 1 < 2 ^ 64" using v vb by simp_all
      have "unat (ucast w :: u64) = f i"
        using u1 lt(2) by (simp add: unsigned_ucast_eq take_bit_nat_eq_self)
      then have "unat ((ucast w :: u64) + 1) = f i + 1"
        using lt(2) by (simp add: unat_word_ariths)
      then have "unat (ucast ((ucast w :: u64) + 1) :: 'a word) = f i + 1"
        using lt(1) by (simp only: unsigned_ucast_eq take_bit_nat_eq_self)
      then show ?thesis using out(2) r2i that True r by simp
    qed
  qed
  show ?thesis
    using cal out(1) val
    by (auto simp: n_def f_def rest_def Sn_def)
qed

lemma sum_indicator_less:
  "r \<le> n \<Longrightarrow> (\<Sum>i<n. if i < r then 1 else 0) = (r::nat)"
proof (induction n)
  case 0
  then show ?case by simp
next
  case (Suc n)
  show ?case
  proof (cases "r = Suc n")
    case True
    then show ?thesis by simp
  next
    case False
    with Suc show ?thesis by simp
  qed
qed

lemma for_loop_fault:
  assumes "for_loop i n body s = Inl e"
  shows "\<exists>k t. i \<le> k \<and> k < n \<and> body k t = Inl e"
  using assms
proof (induction "n - i" arbitrary: i s)
  case 0
  then show ?case by (simp add: for_loop_stop)
next
  case (Suc d)
  then have lt: "i < n" by simp
  show ?case
  proof (cases "body i s")
    case (Inl e')
    with Suc.prems lt show ?thesis by (auto simp: for_loop_step)
  next
    case (Inr t)
    with Suc.prems lt have "for_loop (Suc i) n body t = Inl e" by (simp add: for_loop_step)
    moreover have "d = n - Suc i" using Suc.hyps(2) by simp
    ultimately obtain k u where "Suc i \<le> k" "k < n" "body k u = Inl e"
      using Suc.hyps(1) by blast
    then show ?thesis by (intro exI[of _ k] exI[of _ u]) simp
  qed
qed

text \<open>
  Claim C2, as the code has it. \<open>calibrate\<close> computes in wrapping 64-bit arithmetic, so
  the proportional shares are what the claim says only while nothing wraps: the sum of
  the capacities stays below \<open>2^64\<close>, every product \<open>val * cap(i)\<close> stays below \<open>2^64\<close>,
  and the budget fits the width of the output elements. Then, for \<open>num \<ge> 1\<close> and a
  positive sum \<open>S\<close>, \<open>calibrate\<close> returns \<open>out\<close> with
  \<open>out[i] = floor(val * cap(i) / S)\<close> plus one for each index below
  \<open>val - \<Sum> floor(val * cap(j) / S)\<close>, and \<open>\<Sum> out = val\<close>.
\<close>

theorem calibrate_remainder_first:
  fixes ret :: "'a::len word list"
  assumes "0 < unat num" "unat num \<le> length caps" "unat num \<le> length ret"
    and "0 < (\<Sum>k<unat num. unat (caps ! k))" "(\<Sum>k<unat num. unat (caps ! k)) < 2 ^ 64"
    and "\<forall>k<unat num. unat val * unat (caps ! k) < 2 ^ 64"
    and "unat val < 2 ^ LENGTH('a)"
  shows "\<exists>out. calibrate num val caps ret = Inr out \<and> length out = length ret \<and>
     (\<forall>i<unat num. unat (out ! i) =
         unat val * unat (caps ! i) div (\<Sum>k<unat num. unat (caps ! k)) +
         (if i < unat val - (\<Sum>j<unat num. unat val * unat (caps ! j) div (\<Sum>k<unat num. unat (caps ! k)))
          then 1 else 0)) \<and>
     (\<Sum>i<unat num. unat (out ! i)) = unat val"
proof -
  let ?n = "unat num"
  let ?S = "\<Sum>k<?n. unat (caps ! k)"
  let ?f = "\<lambda>i. unat val * unat (caps ! i) div ?S"
  let ?rest = "unat val - (\<Sum>j<?n. ?f j)"
  from calibrate_spec[OF assms(2,3,1,4,5,6,7)] obtain out where
    out: "calibrate num val caps ret = Inr out" "length out = length ret"
    and el: "\<forall>i<length ret. unat (out ! i) =
        (if i < ?n then ?f i + (if i < ?rest then 1 else 0) else unat (ret ! i))"
    by blast
  have el': "unat (out ! i) = ?f i + (if i < ?rest then 1 else 0)" if "i < ?n" for i
    using el that assms(3) by simp
  have fle: "(\<Sum>j<?n. ?f j) \<le> unat val" using assms(4) by (rule floor_sum_le)
  have restn: "?rest \<le> ?n" using floor_rest_less[OF assms(4,1), of "unat val"] by simp
  have "(\<Sum>i<?n. unat (out ! i)) = (\<Sum>i<?n. ?f i + (if i < ?rest then 1 else 0))"
    by (rule sum.cong) (simp_all add: el')
  also have "\<dots> = (\<Sum>i<?n. ?f i) + (\<Sum>i<?n. if i < ?rest then 1 else 0)"
    by (simp add: sum.distrib)
  also have "\<dots> = (\<Sum>i<?n. ?f i) + ?rest"
    by (simp only: sum_indicator_less[OF restn])
  also have "\<dots> = unat val" using fle by simp
  finally have "(\<Sum>i<?n. unat (out ! i)) = unat val" .
  with out el' show ?thesis by auto
qed

text \<open>Three equal bricks and a table of 1024 slots: the one slot left over goes to brick 0.\<close>

theorem calibrate_remainder_first_witness:
  "\<exists>out. calibrate 3 1024 [1, 1, 1] [0, 0, 0 :: u32] = Inr out \<and>
      unat (out ! 0) = 342 \<and> unat (out ! 1) = 341 \<and> unat (out ! 2) = 341 \<and>
      (\<Sum>i<3. unat (out ! i)) = 1024"
proof -
  have n: "unat (3 :: u64) = 3" by simp
  have lt: "{..<3::nat} = {0, 1, 2}" by auto
  have S: "(\<Sum>k<unat (3 :: u64). unat ([1, 1, 1 :: u64] ! k)) = 3"
    by (simp add: lt)
  have h1: "0 < unat (3 :: u64)" by simp
  have h2: "unat (3 :: u64) \<le> length [1, 1, 1 :: u64]" by simp
  have h3: "unat (3 :: u64) \<le> length [0, 0, 0 :: u32]" by simp
  have h4: "0 < (\<Sum>k<unat (3 :: u64). unat ([1, 1, 1 :: u64] ! k))" unfolding S by simp
  have h5: "(\<Sum>k<unat (3 :: u64). unat ([1, 1, 1 :: u64] ! k)) < 2 ^ 64" unfolding S by simp
  have el: "unat ([1, 1, 1 :: u64] ! k) = 1" if "k < 3" for k
  proof -
    from that have "k = 0 \<or> k = 1 \<or> k = 2" by arith
    then show ?thesis by auto
  qed
  have h6: "\<forall>k<unat (3 :: u64). unat (1024 :: u64) * unat ([1, 1, 1 :: u64] ! k) < 2 ^ 64"
    by (simp add: el)
  have h7: "unat (1024 :: u64) < 2 ^ LENGTH(32)" by simp
  from calibrate_remainder_first[OF h1 h2 h3 h4 h5 h6 h7] obtain out where
    out: "calibrate 3 1024 [1, 1, 1] [0, 0, 0 :: u32] = Inr out"
    and s: "(\<Sum>i<unat (3 :: u64). unat (out ! i)) = unat (1024 :: u64)"
    by blast
  have "calibrate 3 1024 [1, 1, 1] [0, 0, 0 :: u32] = Inr [342, 341, 341]"
    by (simp add: calibrate_def for_loop.simps rd_def wr_def)
  with out have "unat (out ! 0) = 342" "unat (out ! 1) = 341" "unat (out ! 2) = 341"
    by auto
  with out s show ?thesis by (simp only: n) simp
qed

text \<open>
  C2 as stated (every budget, every capacity vector with a positive sum) fails where the
  arithmetic wraps. With \<open>val = 2^40\<close> and two capacities of \<open>2^40\<close> each product is
  \<open>2^80\<close>, which is 0 in 64 bits: both shares are 0, \<open>rest\<close> is \<open>2^40\<close>, and the
  remainder loop runs off the end of the two-element output array. With capacities
  \<open>2^63\<close> and \<open>2^63 + 1\<close> the sum wraps to 1 and the call returns \<open>[0, 2]\<close>,
  where the claim's formula gives \<open>[1, 1]\<close>.
\<close>

theorem calibrate_overflow_counterexample:
  "calibrate64 2 (2 ^ 40) [2 ^ 40, 2 ^ 40] [0, 0] = Inl OutOfBounds \<and>
   calibrate64 2 2 [2 ^ 63, 2 ^ 63 + 1] [0, 0] = Inr [0, 2]"
  by (simp add: calibrate64_def calibrate_def for_loop.simps rd_def wr_def)

text \<open>
  Claim C3, as the code has it. Under the same no-wrap conditions as for C2, a brick of
  larger or equal capacity gets at most one slot less than a brick of smaller capacity;
  it gets at least as many when its index is the smaller one (the remainder goes to the
  first indices in order): for \<open>cap(i) \<ge> cap(j)\<close>, \<open>out[i] + 1 \<ge> out[j]\<close>, and
  \<open>out[i] \<ge> out[j]\<close> when \<open>i \<le> j\<close>.
\<close>

theorem calibrate_monotone:
  fixes ret :: "'a::len word list"
  assumes "0 < unat num" "unat num \<le> length caps" "unat num \<le> length ret"
    and "0 < (\<Sum>k<unat num. unat (caps ! k))" "(\<Sum>k<unat num. unat (caps ! k)) < 2 ^ 64"
    and "\<forall>k<unat num. unat val * unat (caps ! k) < 2 ^ 64"
    and "unat val < 2 ^ LENGTH('a)"
    and "i < unat num" "j < unat num" "caps ! j \<le> caps ! i"
  shows "\<exists>out. calibrate num val caps ret = Inr out \<and>
     unat (out ! j) \<le> unat (out ! i) + 1 \<and> (i \<le> j \<longrightarrow> unat (out ! j) \<le> unat (out ! i))"
proof -
  let ?n = "unat num"
  let ?S = "\<Sum>k<?n. unat (caps ! k)"
  let ?f = "\<lambda>i. unat val * unat (caps ! i) div ?S"
  let ?rest = "unat val - (\<Sum>j<?n. ?f j)"
  from calibrate_spec[OF assms(2,3,1,4,5,6,7)] obtain out where
    out: "calibrate num val caps ret = Inr out" "length out = length ret"
    and el: "\<forall>i<length ret. unat (out ! i) =
        (if i < ?n then ?f i + (if i < ?rest then 1 else 0) else unat (ret ! i))"
    by blast
  have el': "unat (out ! i) = ?f i + (if i < ?rest then 1 else 0)" if "i < ?n" for i
    using el that assms(3) by simp
  have "unat (caps ! j) \<le> unat (caps ! i)" using assms(10) by (simp add: word_le_nat_alt)
  then have mono: "?f j \<le> ?f i" by (intro div_le_mono mult_le_mono2)
  have a: "unat (out ! j) \<le> unat (out ! i) + 1"
    using mono el'[OF assms(8)] el'[OF assms(9)] by simp
  have b: "unat (out ! j) \<le> unat (out ! i)" if "i \<le> j"
    using mono el'[OF assms(8)] el'[OF assms(9)] that by simp
  show ?thesis using out(1) a b by auto
qed

text \<open>Bricks 0 and 2 of equal capacity: the earlier one is not behind.\<close>

theorem calibrate_monotone_witness:
  "\<exists>out. calibrate 3 1024 [10000, 10001, 10000] [0, 0, 0 :: u32] = Inr out \<and>
      unat (out ! 2) \<le> unat (out ! 0) + 1 \<and> unat (out ! 2) \<le> unat (out ! 0)"
proof -
  let ?caps = "[10000, 10001, 10000 :: u64]"
  have lt: "{..<3::nat} = {0, 1, 2}" by auto
  have S: "(\<Sum>k<unat (3 :: u64). unat (?caps ! k)) = 30001"
    by (simp add: lt)
  have h1: "0 < unat (3 :: u64)" by simp
  have h2: "unat (3 :: u64) \<le> length ?caps" by simp
  have h3: "unat (3 :: u64) \<le> length [0, 0, 0 :: u32]" by simp
  have h4: "0 < (\<Sum>k<unat (3 :: u64). unat (?caps ! k))" unfolding S by simp
  have h5: "(\<Sum>k<unat (3 :: u64). unat (?caps ! k)) < 2 ^ 64" unfolding S by simp
  have el: "unat (?caps ! k) \<le> 10001" if "k < 3" for k
  proof -
    from that have "k = 0 \<or> k = 1 \<or> k = 2" by arith
    then show ?thesis by auto
  qed
  have h6: "\<forall>k<unat (3 :: u64). unat (1024 :: u64) * unat (?caps ! k) < 2 ^ 64"
  proof (intro allI impI)
    fix k assume "k < unat (3 :: u64)"
    then have "unat (?caps ! k) \<le> 10001" by (intro el) simp
    then show "unat (1024 :: u64) * unat (?caps ! k) < 2 ^ 64" by simp
  qed
  have h7: "unat (1024 :: u64) < 2 ^ LENGTH(32)" by simp
  have h8: "0 < unat (3 :: u64)" "2 < unat (3 :: u64)" "?caps ! 2 \<le> ?caps ! 0" by simp_all
  from calibrate_monotone[OF h1 h2 h3 h4 h5 h6 h7 h8] show ?thesis by simp
qed

text \<open>
  C3 as stated fails: with capacities 10000, 10001, 10000 and 1024 slots every share
  rounds down to 341, and the slot left over goes to brick 0. Brick 1 has the larger
  capacity and ends with fewer slots than brick 0.
\<close>

theorem calibrate_monotone_counterexample:
  "calibrate32 3 1024 [10000, 10001, 10000] [0, 0, 0] = Inr [342, 341, 341] \<and>
   [10000, 10001, 10000 :: u64] ! 0 \<le> [10000, 10001, 10000] ! 1 \<and>
   [342, 341, 341 :: u32] ! 1 < [342, 341, 341] ! 0"
  by (simp add: calibrate32_def calibrate_def for_loop.simps rd_def wr_def)

text \<open>
  The divisor of \<open>calibrate\<close> is the wrapped 64-bit sum of the capacities. For
  \<open>num \<ge> 1\<close> and capacities whose sum stays below \<open>2^64\<close>, the division by zero is
  reached exactly when every capacity is zero.
\<close>

lemma calibrate_divide_error_when:
  fixes ret :: "'a::len word list"
  assumes "0 < unat num" "unat num \<le> length caps"
    and "(\<Sum>k<unat num. unat (caps ! k)) < 2 ^ 64"
  shows "calibrate num val caps ret = Inl DivideError \<longleftrightarrow> (\<forall>k<unat num. caps ! k = 0)"
proof -
  define n where "n = unat num"
  define Sw where "Sw = (\<Sum>k<n. caps ! k)"
  note a = assms[folded n_def]
  have l1: "for_loop 0 n (\<lambda>i s. bnd (rd caps i) (\<lambda>c. Inr (s + c))) 0 = Inr Sw"
  proof -
    have "\<exists>s'. for_loop 0 n (\<lambda>i s. bnd (rd caps i) (\<lambda>c. Inr (s + c))) 0 = Inr s'
            \<and> s' = (\<Sum>k<n. caps ! k)"
      by (rule for_loop_total[where P = "\<lambda>k s. s = (\<Sum>j<k. caps ! j)"])
         (use a(2) in \<open>auto simp: rd_def\<close>)
    then show ?thesis by (simp add: Sw_def)
  qed
  have Sw: "unat Sw = (\<Sum>k<n. unat (caps ! k))"
    unfolding Sw_def using a(3) by (intro unat_sum_no_wrap) simp
  have Sw0: "Sw = 0 \<longleftrightarrow> (\<forall>k<n. caps ! k = 0)"
  proof -
    have "Sw = 0 \<longleftrightarrow> (\<Sum>k<n. unat (caps ! k)) = 0" using Sw by (simp add: unat_eq_0[symmetric])
    then show ?thesis by (auto simp: unat_eq_0)
  qed
  let ?body2 = "\<lambda>i (r :: 'a word list, ss). bnd (rd caps i) (\<lambda>c.
              let q = val * c in
              if Sw = 0 then Inl DivideError
              else let result = q div Sw in
                bnd (wr r i (ucast result)) (\<lambda>r. Inr (r, ss + result)))"
  let ?body3 = "\<lambda>i (r :: 'a word list). bnd (rd r i) (\<lambda>v. wr r i (ucast ((ucast v :: u64) + 1)))"
  have cal: "calibrate num val caps ret =
      bnd (for_loop 0 n ?body2 (ret, 0))
        (\<lambda>(ret, sum_scaled). let rest = val - sum_scaled in for_loop 0 (unat rest) ?body3 ret)"
    unfolding calibrate_def n_def[symmetric] by (simp only: l1 bnd_Inr)
  have "calibrate num val caps ret = Inl DivideError \<longleftrightarrow> (\<forall>k<n. caps ! k = 0)"
  proof
    assume d: "calibrate num val caps ret = Inl DivideError"
    show "\<forall>k<n. caps ! k = 0"
    proof (rule ccontr)
      assume "\<not> (\<forall>k<n. caps ! k = 0)"
      then have nz: "Sw \<noteq> 0" using Sw0 by simp
      have b2: "?body2 k t \<noteq> Inl DivideError" for k t
        using nz by (cases t) (auto simp: bnd_def rd_def wr_def Let_def split: sum.splits)
      have b3: "?body3 k t \<noteq> Inl DivideError" for k t
        by (auto simp: bnd_def rd_def wr_def split: sum.splits)
      show False
      proof (cases "for_loop 0 n ?body2 (ret, 0)")
        case (Inl e)
        with d cal have "for_loop 0 n ?body2 (ret, 0) = Inl DivideError" by simp
        from for_loop_fault[OF this] b2 show False by blast
      next
        case (Inr rs)
        obtain r ss where rs: "rs = (r, ss)" by (cases rs)
        from d cal Inr rs have "for_loop 0 (unat (val - ss)) ?body3 r = Inl DivideError"
          by (simp add: Let_def)
        from for_loop_fault[OF this] b3 show False by blast
      qed
    qed
  next
    assume "\<forall>k<n. caps ! k = 0"
    then have z: "Sw = 0" using Sw0 by simp
    have "for_loop 0 n ?body2 (ret, 0) = Inl DivideError"
      using a(1,2) z by (auto simp: for_loop_step rd_def)
    then show "calibrate num val caps ret = Inl DivideError" by (simp add: cal)
  qed
  then show ?thesis by (simp add: n_def)
qed

text \<open>
  The callers of \<open>calibrate32\<close> and \<open>calibrate64\<close> on buckets that all have capacity
  zero, when every allocation succeeds and the call is reached with at least one
  bucket.
\<close>

lemma calibrate_zero_caps:
  fixes ret :: "'a::len word list"
  assumes "0 < unat num" "unat num \<le> length vec" "list_all (\<lambda>b. b_cap b = 0) vec"
  shows "calibrate num val (map b_cap vec) ret = Inl DivideError"
proof -
  have z: "\<forall>k<unat num. map b_cap vec ! k = 0"
    using assms(2,3) by (simp add: list_all_length)
  then have "(\<Sum>k<unat num. unat (map b_cap vec ! k)) = 0" by simp
  then have "(\<Sum>k<unat num. unat (map b_cap vec ! k)) < 2 ^ 64" by simp
  from calibrate_divide_error_when[OF assms(1) _ this] assms(2) z show ?thesis by simp
qed

lemma calibrate32_zero_caps:
  assumes "0 < unat numb" "unat numb \<le> length vec" "list_all (\<lambda>b. b_cap b = 0) vec"
  shows "calibrate32 numb val (map b_cap vec) w = Inl DivideError"
proof -
  have "unat (ucast numb :: u64) = unat numb"
    by (simp add: unsigned_ucast_eq take_bit_nat_eq_self
          order_less_le_trans[OF unsigned_less[of _, where 'a = nat]])
  with assms show ?thesis unfolding calibrate32_def by (intro calibrate_zero_caps) simp_all
qed

lemma check_space_zero_caps:
  assumes "\<forall>n. alloc_ok e n" "list_all (\<lambda>b. b_cap b = 0) vec"
    and "0 < unat nb" "unat nb \<le> length vec"
  shows "check_space e vec nb occ = Inl DivideError"
  using assms
  by (simp add: check_space_def fsx64_alloc_def calibrate64_def calibrate_zero_caps)

lemma spl_zero_caps:
  assumes "\<forall>n. alloc_ok e n" "list_all (\<lambda>b. b_cap b = 0) (buckets st)"
    and "unat ((of_nat (dcx_nums_bits (dcx st)) :: u32) + fact_bits) \<le> MAX_SHIFT"
    and "0 < unat (dcx_numb (dcx st))" "unat (dcx_numb (dcx st)) \<le> length (buckets st)"
  shows "spl_fsx32 e st fact_bits = Inl DivideError"
  using assms
  by (simp add: spl_fsx32_def Let_def fsx32_alloc_def calibrate32_zero_caps)

lemma inc_zero_caps:
  assumes al: "\<forall>n. alloc_ok e n" and z: "list_all (\<lambda>b. b_cap b = 0) (buckets st)"
    and mx: "\<not> (new \<noteq> None \<and> dcx_numb (dcx st) = MAX_BUCKETS)"
    and le: "(if new \<noteq> None then dcx_numb (dcx st) + 1 else dcx_numb (dcx st))
               \<le> 2 ^ dcx_nums_bits (dcx st)"
    and lt: "2 ^ dcx_nums_bits (dcx st) \<le> length t"
    and n: "0 < unat (if new \<noteq> None then dcx_numb (dcx st) + 1 else dcx_numb (dcx st))"
      "unat (if new \<noteq> None then dcx_numb (dcx st) + 1 else dcx_numb (dcx st))
         \<le> length (buckets st)"
  shows "inc_fsx32 e st t target_pos new = Inl DivideError"
proof -
  define nn where "nn = (if new \<noteq> None then dcx_numb (dcx st) + 1 else dcx_numb (dcx st))"
  have c: "clone_systab e (dcx st) t =
             Inr (0, dcx st\<lparr>dcx_tab := Some (take (2 ^ dcx_nums_bits (dcx st)) t)\<rparr>)"
    using al lt by (simp add: clone_systab_def fsx32_alloc_def)
  have g: "(2 ^ dcx_nums_bits (dcx st) < nn) = False" using le by (simp add: nn_def)
  have m: "(new \<noteq> None \<and> dcx_numb (dcx st) = MAX_BUCKETS) = False" using mx by simp
  have a: "fsx32_alloc e (unat nn) = Some (replicate (unat nn) 0)"
    using al by (simp add: fsx32_alloc_def)
  have cal: "calibrate32 nn v (map b_cap (buckets st)) w = Inl DivideError" for v w
    using z n unfolding nn_def[symmetric] by (intro calibrate32_zero_caps)
  show ?thesis
    unfolding inc_fsx32_def Let_def nn_def[symmetric]
    by (simp only: m g if_False a option.case c bnd_Inr prod.case refl cal bnd_Inl) simp
qed

lemma dec_zero_caps:
  assumes al: "\<forall>n. alloc_ok e n" and z: "list_all (\<lambda>b. b_cap b = 0) (buckets st)"
    and n: "0 < unat (if removeme \<noteq> None then dcx_numb (dcx st) - 1 else dcx_numb (dcx st))"
      "unat (if removeme \<noteq> None then dcx_numb (dcx st) - 1 else dcx_numb (dcx st))
         \<le> length (buckets st)"
  shows "dec_fsx32 e st t target_pos removeme = Inl DivideError"
proof -
  define nn where
    "nn = (if removeme \<noteq> None then dcx_numb (dcx st) - 1 else dcx_numb (dcx st))"
  have u: "unat (ucast nn :: u64) = unat nn"
    by (simp add: unsigned_ucast_eq take_bit_nat_eq_self
          order_less_le_trans[OF unsigned_less[of _, where 'a = nat]])
  have "check_space e (buckets st) (ucast nn) occ = Inl DivideError" for occ
    using al z n unfolding nn_def[symmetric] by (intro check_space_zero_caps) (simp_all add: u)
  then show ?thesis
    unfolding dec_fsx32_def Let_def nn_def[symmetric] by (simp only: bnd_Inl)
qed

lemma initv_zero_caps:
  assumes "\<forall>n. alloc_ok e n" "list_all (\<lambda>b. b_cap b = 0) (buckets st)"
    and "nb \<noteq> 0" "0 \<le> bits \<and> bits < int MAX_SHIFT" "nb < ucast (2 ^ nat bits :: u32)"
    and "unat nb \<le> length (buckets st)"
  shows "initv_fsx32 e st t nb bits = Inl DivideError"
proof -
  have "unat nb < unat (ucast (2 ^ nat bits :: u32) :: u64)"
    using assms(5) by (simp add: word_less_nat_alt)
  also have "\<dots> < 2 ^ 32"
    by (simp add: unsigned_ucast_eq take_bit_nat_eq_self
          order_less_le_trans[OF unsigned_less[of _, where 'a = nat]])
  finally have "unat (ucast nb :: u32) = unat nb"
    by (simp add: unsigned_ucast_eq take_bit_nat_eq_self)
  moreover have "0 < unat nb" using assms(3) by (simp add: unat_gt_0)
  ultimately have "calibrate32 (ucast nb) v (map b_cap (buckets st)) w = Inl DivideError" for v w
    using assms(2,6) by (intro calibrate32_zero_caps) simp_all
  then show ?thesis
    unfolding initv_fsx32_def Let_def
    using assms(1,3,4,5) by (simp add: fsx32_alloc_def not_le)
qed

text \<open>
  Claim C10, as the code has it. The divisor is the wrapped 64-bit sum of the
  capacities and nothing checks it. For \<open>num \<ge> 1\<close> and capacities whose sum stays
  below \<open>2^64\<close>, the division by zero is reached exactly when every capacity is zero:
  one positive capacity makes the zero-divisor branch unreachable, and without one the
  call faults. No caller establishes the precondition: \<open>check_space\<close>, \<open>initv\<close>,
  \<open>inc\<close>, \<open>dec\<close> and \<open>spl\<close> pass the capacities of the buckets on as they are, and
  each of them, when its own checks and allocations let it reach the call with at least
  one bucket, divides by zero on buckets that all have capacity zero.
\<close>

theorem calibrate_divisor_unchecked:
  fixes ret :: "'a::len word list"
  shows
  "(0 < unat num \<and> unat num \<le> length caps \<and> (\<Sum>k<unat num. unat (caps ! k)) < 2 ^ 64 \<longrightarrow>
      (calibrate num val caps ret = Inl DivideError \<longleftrightarrow> (\<forall>k<unat num. caps ! k = 0))) \<and>
   ((\<forall>n. alloc_ok e n) \<and> list_all (\<lambda>b. b_cap b = 0) (buckets st) \<longrightarrow>
      (0 < unat nb \<and> unat nb \<le> length (buckets st) \<longrightarrow>
         check_space e (buckets st) nb occ = Inl DivideError) \<and>
      (nb \<noteq> 0 \<and> 0 \<le> bits \<and> bits < int MAX_SHIFT \<and> nb < ucast (2 ^ nat bits :: u32) \<and>
       unat nb \<le> length (buckets st) \<longrightarrow>
         initv_fsx32 e st t0 nb bits = Inl DivideError) \<and>
      (\<not> (new \<noteq> None \<and> dcx_numb (dcx st) = MAX_BUCKETS) \<and>
       (if new \<noteq> None then dcx_numb (dcx st) + 1 else dcx_numb (dcx st))
          \<le> 2 ^ dcx_nums_bits (dcx st) \<and>
       2 ^ dcx_nums_bits (dcx st) \<le> length t \<and>
       0 < unat (if new \<noteq> None then dcx_numb (dcx st) + 1 else dcx_numb (dcx st)) \<and>
       unat (if new \<noteq> None then dcx_numb (dcx st) + 1 else dcx_numb (dcx st))
          \<le> length (buckets st) \<longrightarrow>
         inc_fsx32 e st t target_pos new = Inl DivideError) \<and>
      (0 < unat (if removeme \<noteq> None then dcx_numb (dcx st) - 1 else dcx_numb (dcx st)) \<and>
       unat (if removeme \<noteq> None then dcx_numb (dcx st) - 1 else dcx_numb (dcx st))
          \<le> length (buckets st) \<longrightarrow>
         dec_fsx32 e st t target_pos removeme = Inl DivideError) \<and>
      (unat ((of_nat (dcx_nums_bits (dcx st)) :: u32) + fact_bits) \<le> MAX_SHIFT \<and>
       0 < unat (dcx_numb (dcx st)) \<and> unat (dcx_numb (dcx st)) \<le> length (buckets st) \<longrightarrow>
         spl_fsx32 e st fact_bits = Inl DivideError))"
proof (intro conjI impI; (elim conjE)?)
  assume "0 < unat num" "unat num \<le> length caps" "(\<Sum>k<unat num. unat (caps ! k)) < 2 ^ 64"
  then show "calibrate num val caps ret = Inl DivideError \<longleftrightarrow> (\<forall>k<unat num. caps ! k = 0)"
    by (rule calibrate_divide_error_when)
next
  assume "\<forall>n. alloc_ok e n" "list_all (\<lambda>b. b_cap b = 0) (buckets st)"
    "0 < unat nb" "unat nb \<le> length (buckets st)"
  then show "check_space e (buckets st) nb occ = Inl DivideError"
    by (rule check_space_zero_caps)
next
  assume "\<forall>n. alloc_ok e n" "list_all (\<lambda>b. b_cap b = 0) (buckets st)"
    "nb \<noteq> 0" "0 \<le> bits" "bits < int MAX_SHIFT" "nb < ucast (2 ^ nat bits :: u32)"
    "unat nb \<le> length (buckets st)"
  then show "initv_fsx32 e st t0 nb bits = Inl DivideError"
    by (intro initv_zero_caps) simp_all
next
  assume "\<forall>n. alloc_ok e n" "list_all (\<lambda>b. b_cap b = 0) (buckets st)"
    "\<not> (new \<noteq> None \<and> dcx_numb (dcx st) = MAX_BUCKETS)"
    "(if new \<noteq> None then dcx_numb (dcx st) + 1 else dcx_numb (dcx st))
          \<le> 2 ^ dcx_nums_bits (dcx st)"
    "2 ^ dcx_nums_bits (dcx st) \<le> length t"
    "0 < unat (if new \<noteq> None then dcx_numb (dcx st) + 1 else dcx_numb (dcx st))"
    "unat (if new \<noteq> None then dcx_numb (dcx st) + 1 else dcx_numb (dcx st))
          \<le> length (buckets st)"
  then show "inc_fsx32 e st t target_pos new = Inl DivideError"
    by (rule inc_zero_caps)
next
  assume "\<forall>n. alloc_ok e n" "list_all (\<lambda>b. b_cap b = 0) (buckets st)"
    "0 < unat (if removeme \<noteq> None then dcx_numb (dcx st) - 1 else dcx_numb (dcx st))"
    "unat (if removeme \<noteq> None then dcx_numb (dcx st) - 1 else dcx_numb (dcx st))
          \<le> length (buckets st)"
  then show "dec_fsx32 e st t target_pos removeme = Inl DivideError"
    by (rule dec_zero_caps)
next
  assume "\<forall>n. alloc_ok e n" "list_all (\<lambda>b. b_cap b = 0) (buckets st)"
    "unat ((of_nat (dcx_nums_bits (dcx st)) :: u32) + fact_bits) \<le> MAX_SHIFT"
    "0 < unat (dcx_numb (dcx st))" "unat (dcx_numb (dcx st)) \<le> length (buckets st)"
  then show "spl_fsx32 e st fact_bits = Inl DivideError"
    by (rule spl_zero_caps)
qed

text \<open>
  Two empty bricks fault; one brick of capacity 5 among them does not. On a volume of
  two empty bricks over eight slots every caller divides by zero.
\<close>

theorem calibrate_divisor_unchecked_witness:
  "calibrate 2 1024 [0, 0] [0, 0 :: u32] = Inl DivideError \<and>
   calibrate 2 1024 [0, 5] [0, 0 :: u32] \<noteq> Inl DivideError \<and>
   check_space \<lparr>alloc_ok = (\<lambda>n. True), space_occupied = 0\<rparr>
     [\<lparr>b_id = 10, b_cap = 0, b_fib = None, b_fib_len = 0\<rparr>,
      \<lparr>b_id = 20, b_cap = 0, b_fib = None, b_fib_len = 0\<rparr>] 2 0 = Inl DivideError \<and>
   initv_fsx32 \<lparr>alloc_ok = (\<lambda>n. True), space_occupied = 0\<rparr>
     \<lparr>dcx = \<lparr>dcx_numb = 2, dcx_nums_bits = 3, dcx_weights = Some [4, 4], dcx_tab = None\<rparr>,
      buckets = [\<lparr>b_id = 10, b_cap = 0, b_fib = None, b_fib_len = 0\<rparr>,
                 \<lparr>b_id = 20, b_cap = 0, b_fib = None, b_fib_len = 0\<rparr>]\<rparr>
     None 2 10 = Inl DivideError \<and>
   inc_fsx32 \<lparr>alloc_ok = (\<lambda>n. True), space_occupied = 0\<rparr>
     \<lparr>dcx = \<lparr>dcx_numb = 2, dcx_nums_bits = 3, dcx_weights = Some [4, 4], dcx_tab = None\<rparr>,
      buckets = [\<lparr>b_id = 10, b_cap = 0, b_fib = None, b_fib_len = 0\<rparr>,
                 \<lparr>b_id = 20, b_cap = 0, b_fib = None, b_fib_len = 0\<rparr>]\<rparr>
     [10, 10, 10, 10, 20, 20, 20, 20] 1 None = Inl DivideError \<and>
   dec_fsx32 \<lparr>alloc_ok = (\<lambda>n. True), space_occupied = 0\<rparr>
     \<lparr>dcx = \<lparr>dcx_numb = 2, dcx_nums_bits = 3, dcx_weights = Some [4, 4], dcx_tab = None\<rparr>,
      buckets = [\<lparr>b_id = 10, b_cap = 0, b_fib = None, b_fib_len = 0\<rparr>,
                 \<lparr>b_id = 20, b_cap = 0, b_fib = None, b_fib_len = 0\<rparr>]\<rparr>
     [10, 10, 10, 10, 20, 20, 20, 20] 1 None = Inl DivideError \<and>
   spl_fsx32 \<lparr>alloc_ok = (\<lambda>n. True), space_occupied = 0\<rparr>
     \<lparr>dcx = \<lparr>dcx_numb = 2, dcx_nums_bits = 3, dcx_weights = Some [4, 4], dcx_tab = None\<rparr>,
      buckets = [\<lparr>b_id = 10, b_cap = 0, b_fib = None, b_fib_len = 0\<rparr>,
                 \<lparr>b_id = 20, b_cap = 0, b_fib = None, b_fib_len = 0\<rparr>]\<rparr>
     1 = Inl DivideError"
proof -
  let ?e = "\<lparr>alloc_ok = (\<lambda>n. True), space_occupied = 0\<rparr>"
  let ?st = "\<lparr>dcx = \<lparr>dcx_numb = 2, dcx_nums_bits = 3, dcx_weights = Some [4, 4], dcx_tab = None\<rparr>,
      buckets = [\<lparr>b_id = 10, b_cap = 0, b_fib = None, b_fib_len = 0\<rparr>,
                 \<lparr>b_id = 20, b_cap = 0, b_fib = None, b_fib_len = 0\<rparr>]\<rparr>"
  let ?t = "[10, 10, 10, 10, 20, 20, 20, 20] :: u32 list"
  have lt: "{..<2::nat} = {0, 1}" by auto
  have n2: "unat (2 :: u64) = 2" by simp
  have h: "0 < unat (2 :: u64) \<and> unat (2 :: u64) \<le> length [0, 0 :: u64] \<and>
           (\<Sum>k<unat (2 :: u64). unat ([0, 0 :: u64] ! k)) < 2 ^ 64"
    "0 < unat (2 :: u64) \<and> unat (2 :: u64) \<le> length [0, 5 :: u64] \<and>
           (\<Sum>k<unat (2 :: u64). unat ([0, 5 :: u64] ! k)) < 2 ^ 64"
    by (simp_all add: lt)
  have z: "\<forall>k<unat (2 :: u64). [0, 0 :: u64] ! k = 0"
  proof (intro allI impI)
    fix k assume "k < unat (2 :: u64)"
    with n2 have "k = 0 \<or> k = 1" by arith
    then show "[0, 0 :: u64] ! k = 0" by auto
  qed
  have nz: "\<not> (\<forall>k<unat (2 :: u64). [0, 5 :: u64] ! k = 0)" by (auto intro: exI[of _ 1])
  have a: "(\<forall>n. alloc_ok ?e n) \<and> list_all (\<lambda>b. b_cap b = 0) (buckets ?st)" by simp
  have c1: "0 < unat (2 :: u64) \<and> unat (2 :: u64) \<le> length (buckets ?st)" by simp
  have c2: "(2 :: u64) \<noteq> 0 \<and> 0 \<le> (10 :: int) \<and> (10 :: int) < int MAX_SHIFT \<and>
            (2 :: u64) < ucast (2 ^ nat 10 :: u32) \<and>
            unat (2 :: u64) \<le> length (buckets ?st)" by simp
  have c3: "\<not> (None \<noteq> (None :: bucket option) \<and> dcx_numb (dcx ?st) = MAX_BUCKETS) \<and>
       (if None \<noteq> (None :: bucket option) then dcx_numb (dcx ?st) + 1 else dcx_numb (dcx ?st))
          \<le> 2 ^ dcx_nums_bits (dcx ?st) \<and>
       2 ^ dcx_nums_bits (dcx ?st) \<le> length ?t \<and>
       0 < unat (if None \<noteq> (None :: bucket option) then dcx_numb (dcx ?st) + 1
                 else dcx_numb (dcx ?st)) \<and>
       unat (if None \<noteq> (None :: bucket option) then dcx_numb (dcx ?st) + 1
             else dcx_numb (dcx ?st)) \<le> length (buckets ?st)" by simp
  have c4: "0 < unat (if None \<noteq> (None :: bucket option) then dcx_numb (dcx ?st) - 1
                      else dcx_numb (dcx ?st)) \<and>
       unat (if None \<noteq> (None :: bucket option) then dcx_numb (dcx ?st) - 1
             else dcx_numb (dcx ?st)) \<le> length (buckets ?st)" by simp
  have c5: "unat ((of_nat (dcx_nums_bits (dcx ?st)) :: u32) + 1) \<le> MAX_SHIFT \<and>
       0 < unat (dcx_numb (dcx ?st)) \<and> unat (dcx_numb (dcx ?st)) \<le> length (buckets ?st)"
    by simp
  note th = calibrate_divisor_unchecked[where num = 2 and val = 1024 and ret = "[0, 0 :: u32]"
      and e = ?e and st = ?st and nb = 2 and occ = 0 and bits = 10 and ?t0.0 = None
      and new = None and removeme = None and t = ?t and target_pos = 1 and fact_bits = 1]
  from th[where caps = "[0, 0]"] h(1) z
  have 1: "calibrate 2 1024 [0, 0] [0, 0 :: u32] = Inl DivideError" by blast
  from th[where caps = "[0, 5]"] h(2) nz
  have 2: "calibrate 2 1024 [0, 5] [0, 0 :: u32] \<noteq> Inl DivideError" by blast
  from th[where caps = "[0, 0]", THEN conjunct2] a c1 c2 c3 c4 c5
  have 3: "check_space ?e (buckets ?st) 2 0 = Inl DivideError"
    and 4: "initv_fsx32 ?e ?st None 2 10 = Inl DivideError"
    and 5: "inc_fsx32 ?e ?st ?t 1 None = Inl DivideError"
    and 6: "dec_fsx32 ?e ?st ?t 1 None = Inl DivideError"
    and 7: "spl_fsx32 ?e ?st 1 = Inl DivideError"
    by blast+
  from 1 2 3[simplified] 4 5 6 7 show ?thesis by (intro conjI)
qed

text \<open>
  C10 as stated fails: a positive capacity alone does not keep the divisor from being
  zero. Two capacities of \<open>2^63\<close> are both positive and their 64-bit sum is 0.
\<close>

theorem calibrate_divide_error_counterexample:
  "calibrate64 2 1 [2 ^ 63, 2 ^ 63] [0, 0] = Inl DivideError \<and>
   (0 :: u64) < [2 ^ 63, 2 ^ 63] ! 0 \<and> (0 :: u64) < [2 ^ 63, 2 ^ 63] ! 1"
  by (simp add: calibrate64_def calibrate_def for_loop.simps rd_def wr_def)

subsection \<open>Serialization\<close>

lemma le32_reassemble:
  fixes x :: u32
  shows "ucast (ucast x :: u8) OR push_bit 8 (ucast (ucast (drop_bit 8 x) :: u8)) OR
         push_bit 16 (ucast (ucast (drop_bit 16 x) :: u8)) OR
         push_bit 24 (ucast (ucast (drop_bit 24 x) :: u8)) = x" (is "?lhs = x")
proof (rule bit_word_eqI)
  fix n assume n: "n < LENGTH(32)"
  consider "n < 8" | "8 \<le> n" "n < 16" | "16 \<le> n" "n < 24" | "24 \<le> n" "n < 32"
    using n by fastforce
  then show "bit ?lhs n = bit x n"
    by cases (auto simp: bit_simps)
qed

lemma get_put_le32_same:
  assumes "put_le32 buf p x = Inr buf'"
  shows "get_le32 buf' p = Inr x" and "length buf' = length buf"
  using assms le32_reassemble[of x]
  by (auto simp: put_le32_def get_le32_def split: if_splits)

lemma get_put_le32_other:
  assumes "put_le32 buf p x = Inr buf'" "q + 4 \<le> p"
  shows "get_le32 buf' q = get_le32 buf q"
  using assms
  by (auto simp: put_le32_def get_le32_def split: if_splits)

lemma rdp_Some [simp]: "rdp (Some xs) i = rd xs i"
  by (simp add: rdp_def deref_def)

lemma pack_fsx32_spec:
  assumes "dcx_tab d = Some t" "unat src_off + unat count \<le> length t"
    "4 * unat count \<le> length to"
  shows "\<exists>buf. pack_fsx32 d to src_off count = Inr buf \<and> length buf = length to \<and>
           (\<forall>i<unat count. get_le32 buf (4 * i) = Inr (t ! (unat src_off + i)))"
  unfolding pack_fsx32_def assms(1)
proof (rule for_loop_total[where P = "\<lambda>k buf. length buf = length to \<and>
           (\<forall>i<k. get_le32 buf (4 * i) = Inr (t ! (unat src_off + i)))"])
  show "0 \<le> unat count" by simp
  show "length to = length to \<and> (\<forall>i<0. get_le32 to (4 * i) = Inr (t ! (unat src_off + i)))"
    by simp
  fix k buf
  assume k: "0 \<le> k" "k < unat count"
    and inv: "length buf = length to \<and> (\<forall>i<k. get_le32 buf (4 * i) = Inr (t ! (unat src_off + i)))"
  have r: "rd t (unat src_off + k) = Inr (t ! (unat src_off + k))"
    using k assms(2) by (simp add: rd_def)
  have "4 * k + 4 \<le> length buf" using k assms(3) inv by simp
  then obtain buf' where p: "put_le32 buf (4 * k) (t ! (unat src_off + k)) = Inr buf'"
    by (simp add: put_le32_def)
  have "get_le32 buf' (4 * i) = Inr (t ! (unat src_off + i))" if "i < Suc k" for i
  proof (cases "i = k")
    case True
    then show ?thesis using get_put_le32_same(1)[OF p] by simp
  next
    case False
    with that have "4 * i + 4 \<le> 4 * k" by simp
    from get_put_le32_other[OF p this] inv that False show ?thesis by simp
  qed
  then show "\<exists>t'. bnd (rdp (Some t) (unat src_off + k)) (put_le32 buf (4 * k)) = Inr t' \<and>
          (length t' = length to \<and> (\<forall>i<Suc k. get_le32 t' (4 * i) = Inr (t ! (unat src_off + i))))"
    using r p get_put_le32_same(2)[OF p] inv by simp
qed

lemma unpack_fsx32_spec:
  assumes "unat dst_off + unat count \<le> length t"
    "\<forall>i<unat count. get_le32 from (4 * i) = Inr (v i)"
  shows "\<exists>t'. unpack_fsx32 t from dst_off count = Inr t' \<and> length t' = length t \<and>
           (\<forall>i<length t. t' ! i =
              (if unat dst_off \<le> i \<and> i < unat dst_off + unat count then v (i - unat dst_off)
               else t ! i))"
  unfolding unpack_fsx32_def
proof (rule for_loop_total[where P = "\<lambda>k t'. length t' = length t \<and>
           (\<forall>i<length t. t' ! i =
              (if unat dst_off \<le> i \<and> i < unat dst_off + k then v (i - unat dst_off)
               else t ! i))"], goal_cases)
  case 1
  then show ?case by simp
next
  case 2
  then show ?case by auto
next
  case (3 k u)
  then have "unat dst_off + k < length u" using assms(1) by simp
  with 3 assms(2) show ?case
    by (auto simp: wr_def nth_list_update)
qed

text \<open>
  Claim C7. For every table, offset and count within the bounds of the table, and a
  byte buffer that holds \<open>4 * count\<close> bytes, \<open>pack_fsx32\<close> followed by
  \<open>unpack_fsx32\<close> at the same offset gives the table back unchanged; unpacked into
  any other table at any offset within its bounds, the \<open>count\<close> entries are the
  packed ones and every other entry is left as it was.
\<close>

theorem unpack_pack_roundtrip:
  assumes "dcx_tab d = Some t" "unat src_off + unat count \<le> length t"
    "4 * unat count \<le> length to"
  shows "\<exists>buf. pack_fsx32 d to src_off count = Inr buf \<and>
           unpack_fsx32 t buf src_off count = Inr t \<and>
           (\<forall>t2. unat dst_off + unat count \<le> length t2 \<longrightarrow>
              (\<exists>t2'. unpack_fsx32 t2 buf dst_off count = Inr t2' \<and> length t2' = length t2 \<and>
                 (\<forall>i<length t2. t2' ! i =
                    (if unat dst_off \<le> i \<and> i < unat dst_off + unat count
                     then t ! (unat src_off + (i - unat dst_off)) else t2 ! i))))"
proof -
  from pack_fsx32_spec[OF assms] obtain buf where
    buf: "pack_fsx32 d to src_off count = Inr buf"
    and g: "\<forall>i<unat count. get_le32 buf (4 * i) = Inr (t ! (unat src_off + i))"
    by blast
  have gen: "\<exists>t2'. unpack_fsx32 t2 buf off2 count = Inr t2' \<and> length t2' = length t2 \<and>
                 (\<forall>i<length t2. t2' ! i =
                    (if unat off2 \<le> i \<and> i < unat off2 + unat count
                     then t ! (unat src_off + (i - unat off2)) else t2 ! i))"
    if "unat off2 + unat count \<le> length t2" for t2 off2
    by (rule unpack_fsx32_spec[OF that g])
  from gen[OF assms(2)] obtain t' where
    t': "unpack_fsx32 t buf src_off count = Inr t'" "length t' = length t"
    "\<forall>i<length t. t' ! i =
        (if unat src_off \<le> i \<and> i < unat src_off + unat count
         then t ! (unat src_off + (i - unat src_off)) else t ! i)"
    by blast
  have "t' = t"
    by (rule nth_equalityI) (use t' in auto)
  with buf t'(1) gen show ?thesis by blast
qed

text \<open>Two entries of a four-entry table, packed least significant byte first.\<close>

theorem unpack_pack_roundtrip_witness:
  "\<exists>buf. pack_fsx32 \<lparr>dcx_numb = 1, dcx_nums_bits = 2, dcx_weights = None,
                       dcx_tab = Some [7, 16909060, 4294967295, 9]\<rparr>
            [0, 0, 0, 0, 0, 0, 0, 0] 1 2 = Inr buf \<and>
          buf = [4, 3, 2, 1, 255, 255, 255, 255] \<and>
          unpack_fsx32 [7, 16909060, 4294967295, 9] buf 1 2 = Inr [7, 16909060, 4294967295, 9]"
proof -
  let ?d = "\<lparr>dcx_numb = 1, dcx_nums_bits = 2, dcx_weights = None,
             dcx_tab = Some [7, 16909060, 4294967295, 9 :: u32]\<rparr>"
  have h1: "dcx_tab ?d = Some [7, 16909060, 4294967295, 9]" by simp
  have h2: "unat (1 :: u64) + unat (2 :: u64) \<le> length [7, 16909060, 4294967295, 9 :: u32]" by simp
  have h3: "4 * unat (2 :: u64) \<le> length [0, 0, 0, 0, 0, 0, 0, 0 :: u8]" by simp
  have ev: "pack_fsx32 ?d [0, 0, 0, 0, 0, 0, 0, 0] 1 2 = Inr [4, 3, 2, 1, 255, 255, 255, 255]"
    by (simp add: pack_fsx32_def for_loop.simps put_le32_def rd_def)
  from unpack_pack_roundtrip[OF h1 h2 h3] ev show ?thesis by auto
qed

subsection \<open>Volume operations\<close>

text \<open>
  Claim C9. Both dispatchers test and set the busy flag first. When it is already set
  they return \<open>-EBUSY\<close> at once and leave the volume as it is, the flag still held
  by its owner. Otherwise the busy flag is clear on return, whatever the opcode and
  whatever the operation does and returns. Each of the eight operations on a directory
  and of the three on a regular file runs on the volume with the flag set, and the
  dispatcher returns its return code and the volume it leaves, with the flag cleared.
  Every other opcode fails with \<open>-ENOTTY\<close> and leaves the volume as it was.
\<close>

theorem volume_op_busy_flag:
  "(busy sb \<longrightarrow>
      reiser4_volume_op_dir ops opcode sb = (- EBUSY, sb) \<and>
      reiser4_volume_op_file ops opcode sb = (- EBUSY, sb)) \<and>
   (\<not> busy sb \<longrightarrow>
      \<not> busy (snd (reiser4_volume_op_dir ops opcode sb)) \<and>
      \<not> busy (snd (reiser4_volume_op_file ops opcode sb)) \<and>
      (\<forall>(c, operation) \<in> set
          [(REISER4_PRINT_VOLUME, reiser4_print_volume ops),
           (REISER4_PRINT_BRICK, reiser4_print_brick ops),
           (REISER4_RESIZE_BRICK, reiser4_resize_brick ops),
           (REISER4_ADD_BRICK, reiser4_add_brick ops False),
           (REISER4_ADD_PROXY, reiser4_add_brick ops True),
           (REISER4_REMOVE_BRICK, reiser4_remove_brick ops),
           (REISER4_SCALE_VOLUME, reiser4_scale_volume ops),
           (REISER4_BALANCE_VOLUME, reiser4_balance_volume ops)].
         reiser4_volume_op_dir ops c sb =
           (fst (operation (sb\<lparr>busy := True\<rparr>)),
            (snd (operation (sb\<lparr>busy := True\<rparr>)))\<lparr>busy := False\<rparr>)) \<and>
      (opcode \<notin> {REISER4_PRINT_VOLUME, REISER4_PRINT_BRICK, REISER4_RESIZE_BRICK,
                  REISER4_ADD_BRICK, REISER4_ADD_PROXY, REISER4_REMOVE_BRICK,
                  REISER4_SCALE_VOLUME, REISER4_BALANCE_VOLUME} \<longrightarrow>
         reiser4_volume_op_dir ops opcode sb = (- ENOTTY, sb)) \<and>
      (\<forall>(c, operation) \<in> set
          [(REISER4_MIGRATE_FILE, reiser4_migrate_file ops),
           (REISER4_SET_FILE_IMMOBILE, reiser4_set_file_immobile ops),
           (REISER4_CLR_FILE_IMMOBILE, reiser4_clr_file_immobile ops)].
         reiser4_volume_op_file ops c sb =
           (fst (operation (sb\<lparr>busy := True\<rparr>)),
            (snd (operation (sb\<lparr>busy := True\<rparr>)))\<lparr>busy := False\<rparr>)) \<and>
      (opcode \<notin> {REISER4_MIGRATE_FILE, REISER4_SET_FILE_IMMOBILE,
                  REISER4_CLR_FILE_IMMOBILE} \<longrightarrow>
         reiser4_volume_op_file ops opcode sb = (- ENOTTY, sb)))"
proof (intro conjI impI)
  assume "busy sb"
  then show "reiser4_volume_op_dir ops opcode sb = (- EBUSY, sb)"
    by (simp add: reiser4_volume_op_dir_def reiser4_volume_test_set_busy_def)
next
  assume "busy sb"
  then show "reiser4_volume_op_file ops opcode sb = (- EBUSY, sb)"
    by (simp add: reiser4_volume_op_file_def reiser4_volume_test_set_busy_def)
next
  assume "\<not> busy sb"
  then show "\<not> busy (snd (reiser4_volume_op_dir ops opcode sb))"
    by (simp add: reiser4_volume_op_dir_def reiser4_volume_test_set_busy_def
          reiser4_volume_clear_busy_def split: vol_opcode.splits prod.splits)
next
  assume "\<not> busy sb"
  then show "\<not> busy (snd (reiser4_volume_op_file ops opcode sb))"
    by (simp add: reiser4_volume_op_file_def reiser4_volume_test_set_busy_def
          reiser4_volume_clear_busy_def split: vol_opcode.splits prod.splits)
next
  assume "\<not> busy sb"
  then show "\<forall>(c, operation) \<in> set
          [(REISER4_PRINT_VOLUME, reiser4_print_volume ops),
           (REISER4_PRINT_BRICK, reiser4_print_brick ops),
           (REISER4_RESIZE_BRICK, reiser4_resize_brick ops),
           (REISER4_ADD_BRICK, reiser4_add_brick ops False),
           (REISER4_ADD_PROXY, reiser4_add_brick ops True),
           (REISER4_REMOVE_BRICK, reiser4_remove_brick ops),
           (REISER4_SCALE_VOLUME, reiser4_scale_volume ops),
           (REISER4_BALANCE_VOLUME, reiser4_balance_volume ops)].
         reiser4_volume_op_dir ops c sb =
           (fst (operation (sb\<lparr>busy := True\<rparr>)),
            (snd (operation (sb\<lparr>busy := True\<rparr>)))\<lparr>busy := False\<rparr>)"
    by (simp add: reiser4_volume_op_dir_def reiser4_volume_test_set_busy_def
          reiser4_volume_clear_busy_def split: prod.splits)
next
  assume nb: "\<not> busy sb"
    and "opcode \<notin> {REISER4_PRINT_VOLUME, REISER4_PRINT_BRICK, REISER4_RESIZE_BRICK,
                  REISER4_ADD_BRICK, REISER4_ADD_PROXY, REISER4_REMOVE_BRICK,
                  REISER4_SCALE_VOLUME, REISER4_BALANCE_VOLUME}"
  moreover from nb have "sb\<lparr>busy := False\<rparr> = sb" by simp
  ultimately show "reiser4_volume_op_dir ops opcode sb = (- ENOTTY, sb)"
    by (cases opcode)
       (simp_all add: reiser4_volume_op_dir_def reiser4_volume_test_set_busy_def
          reiser4_volume_clear_busy_def)
next
  assume "\<not> busy sb"
  then show "\<forall>(c, operation) \<in> set
          [(REISER4_MIGRATE_FILE, reiser4_migrate_file ops),
           (REISER4_SET_FILE_IMMOBILE, reiser4_set_file_immobile ops),
           (REISER4_CLR_FILE_IMMOBILE, reiser4_clr_file_immobile ops)].
         reiser4_volume_op_file ops c sb =
           (fst (operation (sb\<lparr>busy := True\<rparr>)),
            (snd (operation (sb\<lparr>busy := True\<rparr>)))\<lparr>busy := False\<rparr>)"
    by (simp add: reiser4_volume_op_file_def reiser4_volume_test_set_busy_def
          reiser4_volume_clear_busy_def split: prod.splits)
next
  assume nb: "\<not> busy sb"
    and "opcode \<notin> {REISER4_MIGRATE_FILE, REISER4_SET_FILE_IMMOBILE,
                  REISER4_CLR_FILE_IMMOBILE}"
  moreover from nb have "sb\<lparr>busy := False\<rparr> = sb" by simp
  ultimately show "reiser4_volume_op_file ops opcode sb = (- ENOTTY, sb)"
    by (cases opcode)
       (simp_all add: reiser4_volume_op_file_def reiser4_volume_test_set_busy_def
          reiser4_volume_clear_busy_def)
qed

text \<open>
  A removal refused on a busy volume; on a free volume a removal that fails, changes
  the volume and finds the flag set while it runs (it returns \<open>-EIO\<close> otherwise); an
  unknown opcode; an operation on files sent to the dispatcher of directories.
\<close>

theorem volume_op_busy_flag_witness:
  "reiser4_volume_op_dir
     \<lparr>reiser4_print_volume = (\<lambda>s. (0, s)), reiser4_print_brick = (\<lambda>s. (0, s)),
      reiser4_resize_brick = (\<lambda>s. (- EINVAL, s)), reiser4_add_brick = (\<lambda>p s. (0, s)),
      reiser4_remove_brick =
        (\<lambda>s. (if busy s then - EINVAL else - 5, s\<lparr>vol := Suc (vol s)\<rparr>)),
      reiser4_scale_volume = (\<lambda>s. (0, s)), reiser4_balance_volume = (\<lambda>s. (0, s)),
      reiser4_migrate_file = (\<lambda>s. (0, s)), reiser4_set_file_immobile = (\<lambda>s. (0, s)),
      reiser4_clr_file_immobile = (\<lambda>s. (0, s))\<rparr>
     REISER4_REMOVE_BRICK \<lparr>busy = True, vol = 0\<rparr> = (- EBUSY, \<lparr>busy = True, vol = 0\<rparr>) \<and>
   reiser4_volume_op_dir
     \<lparr>reiser4_print_volume = (\<lambda>s. (0, s)), reiser4_print_brick = (\<lambda>s. (0, s)),
      reiser4_resize_brick = (\<lambda>s. (- EINVAL, s)), reiser4_add_brick = (\<lambda>p s. (0, s)),
      reiser4_remove_brick =
        (\<lambda>s. (if busy s then - EINVAL else - 5, s\<lparr>vol := Suc (vol s)\<rparr>)),
      reiser4_scale_volume = (\<lambda>s. (0, s)), reiser4_balance_volume = (\<lambda>s. (0, s)),
      reiser4_migrate_file = (\<lambda>s. (0, s)), reiser4_set_file_immobile = (\<lambda>s. (0, s)),
      reiser4_clr_file_immobile = (\<lambda>s. (0, s))\<rparr>
     REISER4_REMOVE_BRICK \<lparr>busy = False, vol = 0\<rparr> = (- EINVAL, \<lparr>busy = False, vol = 1\<rparr>) \<and>
   reiser4_volume_op_file
     \<lparr>reiser4_print_volume = (\<lambda>s. (0, s)), reiser4_print_brick = (\<lambda>s. (0, s)),
      reiser4_resize_brick = (\<lambda>s. (- EINVAL, s)), reiser4_add_brick = (\<lambda>p s. (0, s)),
      reiser4_remove_brick =
        (\<lambda>s. (if busy s then - EINVAL else - 5, s\<lparr>vol := Suc (vol s)\<rparr>)),
      reiser4_scale_volume = (\<lambda>s. (0, s)), reiser4_balance_volume = (\<lambda>s. (0, s)),
      reiser4_migrate_file = (\<lambda>s. (0, s)), reiser4_set_file_immobile = (\<lambda>s. (0, s)),
      reiser4_clr_file_immobile = (\<lambda>s. (0, s))\<rparr>
     (OTHER_OP 77) \<lparr>busy = False, vol = 0\<rparr> = (- ENOTTY, \<lparr>busy = False, vol = 0\<rparr>) \<and>
   reiser4_volume_op_dir
     \<lparr>reiser4_print_volume = (\<lambda>s. (0, s)), reiser4_print_brick = (\<lambda>s. (0, s)),
      reiser4_resize_brick = (\<lambda>s. (- EINVAL, s)), reiser4_add_brick = (\<lambda>p s. (0, s)),
      reiser4_remove_brick =
        (\<lambda>s. (if busy s then - EINVAL else - 5, s\<lparr>vol := Suc (vol s)\<rparr>)),
      reiser4_scale_volume = (\<lambda>s. (0, s)), reiser4_balance_volume = (\<lambda>s. (0, s)),
      reiser4_migrate_file = (\<lambda>s. (0, s)), reiser4_set_file_immobile = (\<lambda>s. (0, s)),
      reiser4_clr_file_immobile = (\<lambda>s. (0, s))\<rparr>
     REISER4_MIGRATE_FILE \<lparr>busy = False, vol = 0\<rparr> = (- ENOTTY, \<lparr>busy = False, vol = 0\<rparr>)"
proof -
  let ?ops = "\<lparr>reiser4_print_volume = (\<lambda>s. (0, s)), reiser4_print_brick = (\<lambda>s. (0, s)),
      reiser4_resize_brick = (\<lambda>s. (- EINVAL, s)), reiser4_add_brick = (\<lambda>p s. (0, s)),
      reiser4_remove_brick =
        (\<lambda>s. (if busy s then - EINVAL else - 5, s\<lparr>vol := Suc (vol s)\<rparr>)),
      reiser4_scale_volume = (\<lambda>s. (0, s)), reiser4_balance_volume = (\<lambda>s. (0, s)),
      reiser4_migrate_file = (\<lambda>s. (0, s)), reiser4_set_file_immobile = (\<lambda>s. (0, s)),
      reiser4_clr_file_immobile = (\<lambda>s. (0, s))\<rparr> :: nat vol_ops"
  have b: "busy \<lparr>busy = True, vol = 0 :: nat\<rparr>" and nb: "\<not> busy \<lparr>busy = False, vol = 0 :: nat\<rparr>"
    by simp_all
  from volume_op_busy_flag[of "\<lparr>busy = True, vol = 0\<rparr>" ?ops REISER4_REMOVE_BRICK] b
  have 1: "reiser4_volume_op_dir ?ops REISER4_REMOVE_BRICK \<lparr>busy = True, vol = 0\<rparr>
      = (- EBUSY, \<lparr>busy = True, vol = 0\<rparr>)" by blast
  from volume_op_busy_flag[of "\<lparr>busy = False, vol = 0\<rparr>" ?ops "OTHER_OP 77"] nb
  have 2: "reiser4_volume_op_dir ?ops REISER4_REMOVE_BRICK \<lparr>busy = False, vol = 0\<rparr>
      = (- EINVAL, \<lparr>busy = False, vol = 1\<rparr>)"
    and 3: "reiser4_volume_op_file ?ops (OTHER_OP 77) \<lparr>busy = False, vol = 0\<rparr>
      = (- ENOTTY, \<lparr>busy = False, vol = 0\<rparr>)"
    by simp_all
  from volume_op_busy_flag[of "\<lparr>busy = False, vol = 0\<rparr>" ?ops REISER4_MIGRATE_FILE] nb
  have 4: "reiser4_volume_op_dir ?ops REISER4_MIGRATE_FILE \<lparr>busy = False, vol = 0\<rparr>
      = (- ENOTTY, \<lparr>busy = False, vol = 0\<rparr>)"
    by simp
  from 1 2 3 4 show ?thesis by (intro conjI)
qed

subsection \<open>Extent migration\<close>

lemma stripe_floor:
  fixes off :: int
  shows "off - (off AND (2 ^ n - 1)) = 2 ^ n * (off div 2 ^ n)"
proof -
  have "off AND (2 ^ n - 1) = off mod 2 ^ n"
    by (simp add: mask_eq_exp_minus_1[symmetric] take_bit_eq_mask[symmetric] take_bit_eq_mod)
  then show ?thesis by (simp add: minus_mod_eq_mult_div)
qed

lemma split_scan_none:
  assumes "0 < stripe" "stripe dvd off1" "stripe dvd off2"
    and "\<forall>off. stripe dvd off \<and> off1 \<le> off \<and> off < off2 \<longrightarrow> calc off = ucast loc"
  shows "split_scan calc stripe loc off1 off2 = Some None"
  using assms(3,4)
proof (induction "nat (off2 - off1)" arbitrary: off2 rule: less_induct)
  case less
  show ?case
  proof (cases "off1 < off2")
    case False
    then show ?thesis by (subst split_scan.simps) simp
  next
    case True
    from assms(2) less.prems(1) have "stripe dvd (off2 - off1)" by simp
    then obtain q where q: "off2 - off1 = stripe * q" by (auto simp: dvd_def)
    from True q have "0 < stripe * q" by simp
    with assms(1) have "0 < q" by (simp add: zero_less_mult_iff)
    then have "stripe \<le> stripe * q" using assms(1) by simp
    with q have ge: "off1 \<le> off2 - stripe" by simp
    have d: "stripe dvd (off2 - stripe)" using less.prems(1) by simp
    have c: "calc (off2 - stripe) = ucast loc"
      using less.prems(2) d ge assms(1) by simp
    have "split_scan calc stripe loc off1 (off2 - stripe) = Some None"
    proof (rule less.hyps)
      show "nat (off2 - stripe - off1) < nat (off2 - off1)" using assms(1) True by simp
      show "stripe dvd off2 - stripe" by (rule d)
      show "\<forall>off. stripe dvd off \<and> off1 \<le> off \<and> off < off2 - stripe \<longrightarrow> calc off = ucast loc"
        using less.prems(2) assms(1) by simp
    qed
    with True c show ?thesis by (subst split_scan.simps) simp
  qed
qed

text \<open>
  Claim C8, as the code has it. The destination of a stripe is \<open>*dst_id\<close> when a
  destination is passed and the brick that \<open>calc_data_subvol\<close> gives to the stripe
  when \<open>dst_id\<close> is null. Let the ordering of the item's key fit in 32 bits
  (\<open>new_loc\<close> is a \<open>u32\<close>), let a destination that is passed be that ordering, and
  let the node load in the \<open>SKIP_EXTENT\<close> case succeed. In the mode without
  splitting, where the code asks for the destination of the item's offset only, let
  that be the ordering when \<open>dst_id\<close> is null. In the splitting mode let the stripe
  size be a power of two, let every stripe that the item touches map to the ordering,
  and let the item not be empty when \<open>dst_id\<close> is null. Then
  \<open>reiser4_migrate_extent\<close> returns 0 having chosen \<open>SKIP_EXTENT\<close>, set
  \<open>done_off\<close> to the offset of the item and stopped; it migrates no block, leaves the
  key of the item as it is, and does nothing to the tree but the attempt to merge the
  item with its right neighbour.
\<close>

theorem migrate_extent_skip:
  assumes dst: "dst_id = None \<or> dst_id = Some (key_ordering k)"
    and fits: "unat (key_ordering k) < 2 ^ 32"
    and zl: "zload E t = 0"
    and first: "nosplit_migration_mode E \<Longrightarrow> dst_id = None \<Longrightarrow>
       calc_data_subvol E (key_offset k) = key_ordering k"
    and stripe: "\<not> nosplit_migration_mode E \<Longrightarrow> current_stripe_size E = 2 ^ sbits"
    and size: "\<not> nosplit_migration_mode E \<Longrightarrow> dst_id = None \<Longrightarrow>
       0 < reiser4_extent_size E t"
    and maps: "\<not> nosplit_migration_mode E \<Longrightarrow>
       \<forall>off. 2 ^ sbits dvd off \<and> key_offset k - 2 ^ sbits < off \<and>
             off < key_offset k + reiser4_extent_size E t \<longrightarrow>
             calc_data_subvol E off = key_ordering k"
  shows "\<exists>s. reiser4_migrate_extent E t k done_off dst_id = Some (0, s) \<and>
           mctx_act (ms_mctx s) = SKIP_EXTENT \<and> mctx_stop (ms_mctx s) \<and>
           ms_done_off s = key_offset k \<and> mctx_stop_off (ms_mctx s) = key_offset k \<and>
           ms_blocks_migrated s = 0 \<and> mctx_blocks_migrated (ms_mctx s) = 0 \<and>
           ms_tree s = try_merge_with_right_item E t \<and> mctx_key (ms_mctx s) = k"
proof -
  let ?m0 = "init_migration_context k"
  define d where "d = key_ordering k"
  have fit: "ucast (ucast d :: u32) = d"
    using fits unfolding d_def
    by (simp add: word_eq_iff_unsigned[where ?'a = nat] unsigned_ucast_eq
          unsigned_take_bit_eq take_bit_nat_eq_self)
  have w: "\<exists>m. what_to_do E dst_id ?m0 t = Some m \<and> mctx_act m = SKIP_EXTENT \<and> mctx_stop m \<and>
             mctx_stop_off m = key_offset k \<and> mctx_blocks_migrated m = 0 \<and> mctx_key m = k"
  proof (cases "nosplit_migration_mode E")
    case True
    from dst show ?thesis
    proof
      assume n: "dst_id = None"
      show ?thesis
        using True n first[OF True n] fit[unfolded d_def]
        by (simp add: what_to_do_def what_to_do_nosplit_def reset_migration_context_def
              init_migration_context_def Let_def)
    next
      assume s: "dst_id = Some (key_ordering k)"
      show ?thesis
        using True s fit[unfolded d_def]
        by (simp add: what_to_do_def what_to_do_nosplit_def reset_migration_context_def
              init_migration_context_def Let_def)
    qed
  next
    case False
    let ?st = "2 ^ sbits :: int"
    let ?o1 = "key_offset k - (key_offset k AND (?st - 1))"
    let ?e = "key_offset k + reiser4_extent_size E t - 1"
    let ?o2 = "?e - (?e AND (?st - 1))"
    have o1: "?o1 = ?st * (key_offset k div ?st)" by (rule stripe_floor)
    have o2: "?o2 = ?st * (?e div ?st)" by (rule stripe_floor)
    have lo: "key_offset k - ?st < ?o1"
    proof -
      have "key_offset k mod ?st < ?st" by simp
      moreover have "?st * (key_offset k div ?st) = key_offset k - key_offset k mod ?st"
        by (simp only: minus_mod_eq_mult_div)
      ultimately show ?thesis unfolding o1 by linarith
    qed
    have e2: "?st * (?e div ?st) = ?e - ?e mod ?st"
      by (simp only: minus_mod_eq_mult_div)
    have hi: "?o2 \<le> ?e"
    proof -
      have "0 \<le> ?e mod ?st" by simp
      with e2 show ?thesis unfolding o2 by linarith
    qed
    have last: "calc_data_subvol E ?o2 = d" if "dst_id = None"
    proof -
      have "0 < reiser4_extent_size E t" using size[OF False that] .
      moreover have "?e mod ?st < ?st" by simp
      ultimately have "key_offset k - ?st < ?o2" using e2 unfolding o2 by linarith
      moreover have "?o2 < key_offset k + reiser4_extent_size E t" using hi by linarith
      moreover have "?st dvd ?o2" unfolding o2 by simp
      ultimately show ?thesis using maps[OF False] unfolding d_def by blast
    qed
    have sc: "split_scan (calc_data_subvol E) ?st (ucast d) ?o1 ?o2 = Some None"
    proof (rule split_scan_none)
      show "0 < ?st" by simp
      show "?st dvd ?o1" unfolding o1 by simp
      show "?st dvd ?o2" unfolding o2 by simp
      show "\<forall>off. ?st dvd off \<and> ?o1 \<le> off \<and> off < ?o2 \<longrightarrow>
              calc_data_subvol E off = ucast (ucast d :: u32)"
      proof (intro allI impI)
        fix off assume a: "?st dvd off \<and> ?o1 \<le> off \<and> off < ?o2"
        from a lo have "key_offset k - ?st < off" by linarith
        moreover from a hi have "off < key_offset k + reiser4_extent_size E t" by linarith
        ultimately have "calc_data_subvol E off = d" using maps[OF False] a unfolding d_def by blast
        then show "calc_data_subvol E off = ucast (ucast d :: u32)" by (simp only: fit)
      qed
    qed
    from dst show ?thesis
    proof
      assume n: "dst_id = None"
      show ?thesis
        using False n last[OF n] sc fit stripe[OF False] unfolding d_def
        by (simp add: what_to_do_def reset_migration_context_def
              init_migration_context_def Let_def)
    next
      assume s: "dst_id = Some (key_ordering k)"
      show ?thesis
        using False s sc fit stripe[OF False] unfolding d_def
        by (simp add: what_to_do_def reset_migration_context_def
              init_migration_context_def Let_def)
    qed
  qed
  then obtain m where m: "what_to_do E dst_id ?m0 t = Some m" "mctx_act m = SKIP_EXTENT"
    "mctx_stop m" "mctx_stop_off m = key_offset k" "mctx_blocks_migrated m = 0" "mctx_key m = k"
    by blast
  have "\<not> mctx_stop ?m0" by (simp add: init_migration_context_def)
  then show ?thesis
    unfolding reiser4_migrate_extent_def
    by (subst migrate_loop.simps) (simp add: m zl)
qed

text \<open>
  An item of three stripes of 64 KiB on brick 5, all of them mapped to brick 5: with
  no destination passed, in the splitting mode, and with the destination 5 passed, in
  the mode without splitting.
\<close>

theorem migrate_extent_skip_witness:
  "(\<exists>s. reiser4_migrate_extent
          \<lparr>nosplit_migration_mode = False, current_stripe_size = 65536, PAGE_SHIFT = 12,
           calc_data_subvol = (\<lambda>off. 5), reiser4_extent_size = (\<lambda>t. 196608),
           lookup_extent = (\<lambda>t off. (0, 0)), zload = (\<lambda>t. 0),
           try_merge_with_right_item = (\<lambda>t. t),
           do_split_extent = (\<lambda>m t. (0, m, t)),
           do_migrate_extent = (\<lambda>m t. (0, m\<lparr>mctx_stop := True\<rparr>, t))\<rparr>
          (0 :: nat) \<lparr>key_offset = 131072, key_ordering = 5\<rparr> 0 None = Some (0, s) \<and>
        mctx_act (ms_mctx s) = SKIP_EXTENT \<and> mctx_stop (ms_mctx s) \<and>
        ms_done_off s = 131072 \<and> ms_blocks_migrated s = 0) \<and>
   (\<exists>s. reiser4_migrate_extent
          \<lparr>nosplit_migration_mode = True, current_stripe_size = 65536, PAGE_SHIFT = 12,
           calc_data_subvol = (\<lambda>off. 7), reiser4_extent_size = (\<lambda>t. 196608),
           lookup_extent = (\<lambda>t off. (0, 0)), zload = (\<lambda>t. 0),
           try_merge_with_right_item = (\<lambda>t. t),
           do_split_extent = (\<lambda>m t. (0, m, t)),
           do_migrate_extent = (\<lambda>m t. (0, m\<lparr>mctx_stop := True\<rparr>, t))\<rparr>
          (0 :: nat) \<lparr>key_offset = 131072, key_ordering = 5\<rparr> 0 (Some 5) = Some (0, s) \<and>
        mctx_act (ms_mctx s) = SKIP_EXTENT \<and> mctx_stop (ms_mctx s) \<and>
        ms_done_off s = 131072 \<and> ms_blocks_migrated s = 0)"
proof -
  let ?E = "\<lparr>nosplit_migration_mode = False, current_stripe_size = 65536, PAGE_SHIFT = 12,
           calc_data_subvol = (\<lambda>off. 5), reiser4_extent_size = (\<lambda>t. 196608),
           lookup_extent = (\<lambda>t off. (0, 0)), zload = (\<lambda>t. 0),
           try_merge_with_right_item = (\<lambda>t. t),
           do_split_extent = (\<lambda>m t. (0, m, t)),
           do_migrate_extent = (\<lambda>m t. (0, m\<lparr>mctx_stop := True\<rparr>, t))\<rparr>
           :: nat migrate_env"
  let ?F = "\<lparr>nosplit_migration_mode = True, current_stripe_size = 65536, PAGE_SHIFT = 12,
           calc_data_subvol = (\<lambda>off. 7), reiser4_extent_size = (\<lambda>t. 196608),
           lookup_extent = (\<lambda>t off. (0, 0)), zload = (\<lambda>t. 0),
           try_merge_with_right_item = (\<lambda>t. t),
           do_split_extent = (\<lambda>m t. (0, m, t)),
           do_migrate_extent = (\<lambda>m t. (0, m\<lparr>mctx_stop := True\<rparr>, t))\<rparr>
           :: nat migrate_env"
  let ?k = "\<lparr>key_offset = 131072, key_ordering = 5\<rparr>"
  have f: "unat (key_ordering ?k) < 2 ^ 32" by simp
  have e1: "None = None \<or> None = Some (key_ordering ?k)" by simp
  have e2: "zload ?E 0 = 0" by simp
  have e3: "calc_data_subvol ?E (key_offset ?k) = key_ordering ?k" by simp
  have e4: "current_stripe_size ?E = 2 ^ 16" by simp
  have e5: "0 < reiser4_extent_size ?E 0" by simp
  have e6: "\<forall>off. 2 ^ 16 dvd off \<and> key_offset ?k - 2 ^ 16 < off \<and>
             off < key_offset ?k + reiser4_extent_size ?E 0 \<longrightarrow>
             calc_data_subvol ?E off = key_ordering ?k"
    by simp
  have f1: "Some 5 = None \<or> Some 5 = Some (key_ordering ?k)" by simp
  have f2: "zload ?F 0 = 0" by simp
  have nf: "nosplit_migration_mode ?F" by simp
  from migrate_extent_skip[OF e1 f e2 e3 e4 e5 e6, of 0]
  have 1: "\<exists>s. reiser4_migrate_extent ?E 0 ?k 0 None = Some (0, s) \<and>
        mctx_act (ms_mctx s) = SKIP_EXTENT \<and> mctx_stop (ms_mctx s) \<and>
        ms_done_off s = 131072 \<and> ms_blocks_migrated s = 0"
    by auto
  from migrate_extent_skip[OF f1 f f2, of 16 0] nf
  have 2: "\<exists>s. reiser4_migrate_extent ?F 0 ?k 0 (Some 5) = Some (0, s) \<and>
        mctx_act (ms_mctx s) = SKIP_EXTENT \<and> mctx_stop (ms_mctx s) \<and>
        ms_done_off s = 131072 \<and> ms_blocks_migrated s = 0"
    by auto
  from 1 2 show ?thesis by (intro conjI)
qed

text \<open>
  C8 as stated fails on two inputs. When \<open>zload\<close> fails in the \<open>SKIP_EXTENT\<close> case
  the call returns that error and \<open>done_off\<close> is not set (it stays 0 here, the offset
  of the item is 131072). When the id does not fit in 32 bits (here \<open>2^32 + 5\<close>, the
  ordering of the key and the id of every stripe alike), \<open>new_loc\<close> holds 5, the
  comparison with the ordering fails, and the item is migrated.
\<close>

theorem migrate_extent_skip_counterexample:
  "map_option (\<lambda>(ret, s). (ret, ms_done_off s))
     (reiser4_migrate_extent
        \<lparr>nosplit_migration_mode = True, current_stripe_size = 65536, PAGE_SHIFT = 12,
         calc_data_subvol = (\<lambda>off. 5), reiser4_extent_size = (\<lambda>t. 196608),
         lookup_extent = (\<lambda>t off. (0, 0)), zload = (\<lambda>t. - 5),
         try_merge_with_right_item = (\<lambda>t. t),
         do_split_extent = (\<lambda>m t. (0, m, t)),
         do_migrate_extent = (\<lambda>m t. (0, m\<lparr>mctx_stop := True\<rparr>, t))\<rparr>
        (0 :: nat) \<lparr>key_offset = 131072, key_ordering = 5\<rparr> 0 (Some 5)) = Some (- 5, 0) \<and>
   map_option (\<lambda>(ret, s). (ret, mctx_act (ms_mctx s), ms_blocks_migrated s))
     (reiser4_migrate_extent
        \<lparr>nosplit_migration_mode = True, current_stripe_size = 65536, PAGE_SHIFT = 12,
         calc_data_subvol = (\<lambda>off. 4294967301), reiser4_extent_size = (\<lambda>t. 196608),
         lookup_extent = (\<lambda>t off. (0, 0)), zload = (\<lambda>t. 0),
         try_merge_with_right_item = (\<lambda>t. t),
         do_split_extent = (\<lambda>m t. (0, m, t)),
         do_migrate_extent =
           (\<lambda>m t. (0, m\<lparr>mctx_stop := True, mctx_blocks_migrated := 48,
                          mctx_done_off := mctx_stop_off m\<rparr>, t))\<rparr>
        (0 :: nat) \<lparr>key_offset = 131072, key_ordering = 4294967301\<rparr> 0 (Some 4294967301))
     = Some (0, MIGRATE_EXTENT, 48)"
  by (simp add: reiser4_migrate_extent_def migrate_loop.simps what_to_do_def
        what_to_do_nosplit_def reset_migration_context_def init_migration_context_def)

subsection \<open>Splitting the slots (spl)\<close>

lemma deref_Some [simp]: "deref (Some x) = Inr x" by (simp add: deref_def)
lemma deref_None [simp]: "deref None = Inl NullPointer" by (simp add: deref_def)

lemma release_fibers_spec:
  assumes "n \<le> length vec"
  shows "release_fibers n vec =
           Inr (map (\<lambda>b. b\<lparr>b_fib := None\<rparr>) (take n vec) @ drop n vec)"
proof -
  have "\<exists>v. release_fibers n vec = Inr v \<and> length v = length vec \<and>
          (\<forall>i<length vec. v ! i = (if i < n then (vec ! i)\<lparr>b_fib := None\<rparr> else vec ! i))"
    unfolding release_fibers_def
  proof (rule for_loop_total[where P = "\<lambda>k v. length v = length vec \<and>
          (\<forall>i<length vec. v ! i = (if i < k then (vec ! i)\<lparr>b_fib := None\<rparr> else vec ! i))"],
      goal_cases)
    case (3 k v)
    then have "k < length v" using assms by simp
    with 3 show ?case
      by (auto simp: fib_set_at_def rd_def wr_def nth_list_update less_Suc_eq)
  qed simp_all
  then obtain v where v: "release_fibers n vec = Inr v" "length v = length vec"
    "\<forall>i<length vec. v ! i = (if i < n then (vec ! i)\<lparr>b_fib := None\<rparr> else vec ! i)"
    by blast
  have "v = map (\<lambda>b. b\<lparr>b_fib := None\<rparr>) (take n vec) @ drop n vec"
    by (rule nth_equalityI) (use v assms in \<open>auto simp: nth_append\<close>)
  with v(1) show ?thesis by simp
qed

lemma nth_concat_replicate:
  "k < length xs * f \<Longrightarrow> concat (map (replicate f) xs) ! k = xs ! (k div f)"
proof (induction xs arbitrary: k)
  case Nil
  then show ?case by simp
next
  case (Cons x xs)
  show ?case
  proof (cases "k < f")
    case True
    then show ?thesis by (simp add: nth_append)
  next
    case False
    then have "k - f < length xs * f" using Cons.prems by simp
    from Cons.IH[OF this] False show ?thesis
      using Cons.prems by (cases "f = 0") (simp_all add: nth_append le_div_geq)
  qed
qed

lemma length_concat_replicate: "length (concat (map (replicate f) xs)) = length xs * f"
  by (induction xs) simp_all

lemma count_list_replicate: "count_list (replicate n x) y = (if x = y then n else 0)"
  by (induction n) auto

lemma count_list_concat_replicate:
  "count_list (concat (map (replicate f) xs)) y = f * count_list xs y"
  by (induction xs) (simp_all add: count_list_replicate)

lemma unat_of_nat_32: "k < 2 ^ 32 \<Longrightarrow> unat (of_nat k :: u32) = k"
  by (subst unat_of_nat) simp

lemma unat_pow2_32: "n < 32 \<Longrightarrow> unat (2 ^ n :: u32) = 2 ^ n"
proof -
  assume "n < 32"
  then have "(2 :: nat) ^ n < 2 ^ 32" by (intro power_strict_increasing) simp_all
  then have "unat (of_nat (2 ^ n) :: u32) = 2 ^ n" by (rule unat_of_nat_32)
  then show ?thesis by simp
qed

lemma spl_stretch_spec:
  assumes nb: "nums_bits + fact_bits \<le> 31"
    and t: "length t = 2 ^ nums_bits"
    and buf: "length buf = 2 ^ (nums_bits + fact_bits)"
  shows "spl_stretch (2 ^ nums_bits) (2 ^ fact_bits) (Some t) buf =
           Inr (concat (map (replicate (2 ^ fact_bits)) t))"
proof -
  define n where "n = (2 :: nat) ^ nums_bits"
  define f where "f = (2 :: nat) ^ fact_bits"
  have un: "unat (2 ^ nums_bits :: u32) = n" and uf: "unat (2 ^ fact_bits :: u32) = f"
    using nb by (simp_all add: unat_pow2_32 n_def f_def)
  have nf: "n * f = 2 ^ (nums_bits + fact_bits)" by (simp add: n_def f_def power_add)
  have nf32: "n * f < 2 ^ 32"
  proof -
    have "(2 :: nat) ^ (nums_bits + fact_bits) \<le> 2 ^ 31" using nb by (intro power_increasing) simp_all
    then show ?thesis unfolding nf by simp
  qed
  have idx: "unat ((of_nat i :: u32) * 2 ^ fact_bits + of_nat j) = i * f + j"
    if "i < n" "j < f" for i j
  proof -
    have "i * f + j < n * f"
    proof -
      have "i * f + j < i * f + f" using that by simp
      also have "\<dots> = Suc i * f" by simp
      also have "\<dots> \<le> n * f" using that by (intro mult_le_mono1) simp
      finally show ?thesis .
    qed
    then have lt: "i * f + j < 2 ^ 32" using nf32 by simp
    have "(of_nat i :: u32) * 2 ^ fact_bits + of_nat j = of_nat (i * f + j)"
      by (simp add: f_def)
    then show ?thesis using unat_of_nat_32[OF lt] by (simp only:)
  qed
  let ?inner = "\<lambda>i. (\<lambda>j tab. bnd (rdp (Some t) i)
      (\<lambda>v. wr tab (unat ((of_nat i :: u32) * 2 ^ fact_bits + of_nat j)) v))"
  let ?P = "\<lambda>m (b :: u32 list). length b = n * f \<and>
      (\<forall>k<n * f. b ! k = (if k < m then t ! (k div f) else buf ! k))"
  have inner: "\<exists>b'. for_loop 0 f (?inner i) b = Inr b' \<and> ?P (Suc i * f) b'"
    if "i < n" "?P (i * f) b" for i b
  proof -
    have "\<exists>b'. for_loop 0 f (?inner i) b = Inr b' \<and> ?P (i * f + f) b'"
    proof (rule for_loop_total[where P = "\<lambda>j. ?P (i * f + j)"], goal_cases)
      case 1
      then show ?case by simp
    next
      case 2
      then show ?case using that by simp
    next
      case (3 j c)
      have lt: "i * f + j < n * f"
      proof -
        have "i * f + j < i * f + f" using 3 by simp
        also have "\<dots> = Suc i * f" by simp
        also have "\<dots> \<le> n * f" using that by (intro mult_le_mono1) simp
        finally show ?thesis .
      qed
      have d: "(i * f + j) div f = i" using 3 by simp
      show ?case using 3 that(1) t lt idx[of i j] d
        by (auto simp: rd_def wr_def n_def nth_list_update less_Suc_eq)
    qed
    then show ?thesis by (simp add: add.commute)
  qed
  have "\<exists>b'. for_loop 0 n (\<lambda>i tab. for_loop 0 f (?inner i) tab) buf = Inr b' \<and> ?P (n * f) b'"
  proof (rule for_loop_total[where P = "\<lambda>i. ?P (i * f)"], goal_cases)
    case 1
    then show ?case by simp
  next
    case 2
    then show ?case using buf nf by simp
  next
    case (3 i b)
    then show ?case using inner[of i b] by simp
  qed
  then obtain b' where b': "for_loop 0 n (\<lambda>i tab. for_loop 0 f (?inner i) tab) buf = Inr b'"
    "length b' = n * f" "\<forall>k<n * f. b' ! k = t ! (k div f)"
    by auto
  have "b' = concat (map (replicate f) t)"
    by (rule nth_equalityI)
       (use b' t in \<open>auto simp: length_concat_replicate nth_concat_replicate n_def\<close>)
  with b'(1) show ?thesis
    unfolding spl_stretch_def un uf by (simp add: f_def)
qed

lemma unat_bits_sum:
  fixes w :: u32
  assumes "a + unat w \<le> 31"
  shows "unat ((of_nat a :: u32) + w) = a + unat w"
proof -
  have "a < 2 ^ 32" using assms by simp
  then have "unat (of_nat a :: u32) = a" by (rule unat_of_nat_32)
  moreover have "a + unat w < 2 ^ 32" using assms by simp
  ultimately show ?thesis by (simp add: unat_word_ariths)
qed

lemma balance_spl_pure:
  fixes fact_bits :: u32
  assumes nb: "nums_bits + unat fact_bits \<le> 31"
    and t: "length t = 2 ^ nums_bits"
    and numb: "numb \<noteq> 0" "unat numb \<le> length vec"
    and dv: "(2 ^ nums_bits :: nat) mod unat numb = 0"
    and al: "alloc_ok e (2 ^ (nums_bits + unat fact_bits))"
  shows "balance_spl e numb nums_bits (Some t) ow nw fact_bits vec =
           Inr (0, Some (concat (map (replicate (2 ^ unat fact_bits)) t)), ow,
                map (\<lambda>b. b\<lparr>b_fib := None\<rparr>) (take (unat numb) vec) @ drop (unat numb) vec)"
proof -
  have fb: "\<not> (32 \<le> nums_bits \<or> 32 \<le> unat fact_bits)" using nb by simp
  have ex: "(2 ^ nums_bits :: u32) mod numb = 0"
  proof -
    have "unat ((2 ^ nums_bits :: u32) mod numb) = 0"
      using nb dv by (simp add: unat_mod unat_pow2_32)
    then show ?thesis by (simp add: unat_eq_0)
  qed
  have sz: "unat ((2 ^ nums_bits :: u32) * 2 ^ unat fact_bits) = 2 ^ (nums_bits + unat fact_bits)"
  proof -
    have "(2 ^ nums_bits :: u32) * 2 ^ unat fact_bits = 2 ^ (nums_bits + unat fact_bits)"
      by (simp add: power_add)
    then show ?thesis using nb by (simp only: unat_pow2_32)
  qed
  have st: "spl_stretch (2 ^ nums_bits) (2 ^ unat fact_bits) (Some t)
              (replicate (2 ^ (nums_bits + unat fact_bits)) 0) =
            Inr (concat (map (replicate (2 ^ unat fact_bits)) t))"
    by (rule spl_stretch_spec[OF nb t]) simp
  show ?thesis
    unfolding balance_spl_def Let_def
    using numb(1) fb
    by (simp add: ex sz fsx32_alloc_def al st release_fibers_spec[OF numb(2)])
qed

lemma spl_fsx32_pure:
  fixes fact_bits :: u32
  assumes nb: "dcx_nums_bits (dcx st) + unat fact_bits \<le> 31"
    and t: "dcx_tab (dcx st) = Some t" "length t = 2 ^ dcx_nums_bits (dcx st)"
    and numb: "dcx_numb (dcx st) \<noteq> 0" "unat (dcx_numb (dcx st)) \<le> length (buckets st)"
    and dv: "(2 ^ dcx_nums_bits (dcx st) :: nat) mod unat (dcx_numb (dcx st)) = 0"
    and al: "alloc_ok e (2 ^ (dcx_nums_bits (dcx st) + unat fact_bits))"
      "alloc_ok e (unat (dcx_numb (dcx st)))"
    and cal: "calibrate32 (dcx_numb (dcx st)) (2 ^ (dcx_nums_bits (dcx st) + unat fact_bits))
                (map b_cap (buckets st)) (replicate (unat (dcx_numb (dcx st))) 0) = Inr w"
  shows "spl_fsx32 e st fact_bits =
           Inr (0, \<lparr>dcx = (dcx st)\<lparr>dcx_nums_bits := dcx_nums_bits (dcx st) + unat fact_bits,
                                   dcx_weights := Some w,
                                   dcx_tab := Some (concat (map (replicate (2 ^ unat fact_bits)) t))\<rparr>,
                    buckets = map (\<lambda>b. b\<lparr>b_fib := None\<rparr>)
                                (take (unat (dcx_numb (dcx st))) (buckets st)) @
                              drop (unat (dcx_numb (dcx st))) (buckets st)\<rparr>)"
  unfolding spl_fsx32_def Let_def unat_bits_sum[OF nb]
  using nb by (simp add: fsx32_alloc_def al cal t(1) balance_spl_pure[OF nb t(2) numb dv al(1)])

lemma replicate_numeral:
  "replicate 2 x = [x, x]" "replicate 3 x = [x, x, x]" "replicate 4 x = [x, x, x, x]"
  by (simp_all add: numeral_2_eq_2 numeral_3_eq_3 eval_nat_numeral)

text \<open>
  Claim C1 does not hold of the code: \<open>spl\<close> breaks it. Two bricks of capacities 1
  and 2 share 1024 slots as 342 and 682, the weights that \<open>calibrate\<close> gives, and the
  table agrees with them. \<open>spl\<close> with \<open>fact_bits = 1\<close> finds \<open>nums % numb == 0\<close>,
  takes the stretched table for balanced and returns 0. The new weights are 683 and
  1365, while the stretched table holds 684 slots of the first brick and 1364 of the
  second: the number of slots of a brick is no longer its weight.
\<close>

theorem spl_breaks_weight_invariant:
  "calibrate32 2 (2 ^ 10) [1, 2] [0, 0] = Inr [342, 682] \<and>
   count_list (replicate 342 10 @ replicate 682 20) (10 :: u32) = 342 \<and>
   count_list (replicate 342 10 @ replicate 682 20) (20 :: u32) = 682 \<and>
   spl_fsx32 \<lparr>alloc_ok = (\<lambda>n. True), space_occupied = 0\<rparr>
     \<lparr>dcx = \<lparr>dcx_numb = 2, dcx_nums_bits = 10, dcx_weights = Some [342, 682],
              dcx_tab = Some (replicate 342 10 @ replicate 682 20)\<rparr>,
      buckets = [\<lparr>b_id = 10, b_cap = 1, b_fib = None, b_fib_len = 0\<rparr>,
                 \<lparr>b_id = 20, b_cap = 2, b_fib = None, b_fib_len = 0\<rparr>]\<rparr> 1 =
     Inr (0, \<lparr>dcx = \<lparr>dcx_numb = 2, dcx_nums_bits = 11, dcx_weights = Some [683, 1365],
                     dcx_tab = Some (concat (map (replicate 2)
                                 (replicate 342 10 @ replicate 682 20)))\<rparr>,
              buckets = [\<lparr>b_id = 10, b_cap = 1, b_fib = None, b_fib_len = 0\<rparr>,
                         \<lparr>b_id = 20, b_cap = 2, b_fib = None, b_fib_len = 0\<rparr>]\<rparr>) \<and>
   count_list (concat (map (replicate 2) (replicate 342 10 @ replicate 682 20))) (10 :: u32)
     = 684 \<and>
   count_list (concat (map (replicate 2) (replicate 342 10 @ replicate 682 20))) (20 :: u32)
     = 1364"
proof -
  let ?e = "\<lparr>alloc_ok = (\<lambda>n. True), space_occupied = 0\<rparr>"
  let ?t = "replicate 342 10 @ replicate 682 (20 :: u32)"
  let ?st = "\<lparr>dcx = \<lparr>dcx_numb = 2, dcx_nums_bits = 10, dcx_weights = Some [342, 682],
              dcx_tab = Some ?t\<rparr>,
      buckets = [\<lparr>b_id = 10, b_cap = 1, b_fib = None, b_fib_len = 0\<rparr>,
                 \<lparr>b_id = 20, b_cap = 2, b_fib = None, b_fib_len = 0\<rparr>]\<rparr>"
  have c0: "calibrate32 2 (2 ^ 10) [1, 2] [0, 0] = Inr [342, 682]"
    by (simp add: calibrate32_def calibrate_def for_loop.simps rd_def wr_def)
  have c1: "calibrate32 (dcx_numb (dcx ?st)) (2 ^ (dcx_nums_bits (dcx ?st) + 1))
              (map b_cap (buckets ?st)) (replicate (unat (dcx_numb (dcx ?st))) 0)
            = Inr [683, 1365]"
    by (simp add: calibrate32_def calibrate_def for_loop.simps rd_def wr_def replicate_numeral)
  have s: "spl_fsx32 ?e ?st 1 =
     Inr (0, \<lparr>dcx = \<lparr>dcx_numb = 2, dcx_nums_bits = 11, dcx_weights = Some [683, 1365],
                     dcx_tab = Some (concat (map (replicate 2) ?t))\<rparr>,
              buckets = [\<lparr>b_id = 10, b_cap = 1, b_fib = None, b_fib_len = 0\<rparr>,
                         \<lparr>b_id = 20, b_cap = 2, b_fib = None, b_fib_len = 0\<rparr>]\<rparr>)"
    by (subst spl_fsx32_pure[where t = ?t and w = "[683, 1365]"]) (simp_all add: c1[simplified])
  show ?thesis
    by (simp only: c0 s count_list_concat_replicate)
       (simp add: count_list_replicate)
qed

lemma pow2_divisor:
  fixes n :: nat
  shows "n dvd 2 ^ k \<Longrightarrow> \<exists>j\<le>k. n = 2 ^ j"
proof (induction k arbitrary: n)
  case 0
  then show ?case by simp
next
  case (Suc k)
  show ?case
  proof (cases "even n")
    case True
    then obtain m where m: "n = 2 * m" by (auto elim: evenE)
    with Suc.prems have "m dvd 2 ^ k" by simp
    from Suc.IH[OF this] obtain j where "j \<le> k" "m = 2 ^ j" by blast
    with m show ?thesis by (intro exI[of _ "Suc j"]) simp
  next
    case False
    then have "coprime n 2" by simp
    with Suc.prems have "n dvd 2 ^ k" by (simp add: coprime_dvd_mult_right_iff)
    from Suc.IH[OF this] obtain j where "j \<le> k" "n = 2 ^ j" by blast
    then show ?thesis by (intro exI[of _ j]) simp
  qed
qed

lemma pow2_dvd_smaller:
  fixes n :: nat
  assumes "n dvd 2 ^ k" "n \<le> 2 ^ m"
  shows "n dvd 2 ^ m"
proof -
  from pow2_divisor[OF assms(1)] obtain j where j: "n = 2 ^ j" by blast
  with assms(2) have "j \<le> m" by simp
  with j show ?thesis by (simp add: le_imp_power_dvd)
qed

lemma calibrate32_equal_caps:
  assumes n: "0 < unat numb" "unat numb \<le> length vec"
    and eq: "\<forall>i<unat numb. b_cap (vec ! i) = c"
    and c: "0 < unat c" "unat numb * unat c < 2 ^ 64" "unat val * unat c < 2 ^ 64"
    and dv: "unat val mod unat numb = 0"
    and cal: "calibrate32 numb val (map b_cap vec) (replicate (unat numb) 0) = Inr w"
  shows "\<forall>i<unat numb. unat (w ! i) = unat val div unat numb"
proof -
  let ?n = "unat (ucast numb :: u64)"
  let ?v = "unat (ucast val :: u64)"
  let ?caps = "map b_cap vec"
  have un: "?n = unat numb" and uv: "?v = unat val"
    by (simp_all add: unsigned_ucast_eq take_bit_nat_eq_self
          order_less_le_trans[OF unsigned_less[of _, where 'a = nat]])
  have el: "unat (?caps ! k) = unat c" if "k < unat numb" for k
    using that n(2) eq by simp
  have S: "(\<Sum>k<?n. unat (?caps ! k)) = unat numb * unat c"
    unfolding un using el by simp
  have h1: "?n \<le> length ?caps" "?n \<le> length (replicate (unat numb) (0 :: u32))" "0 < ?n"
    using n by (simp_all add: un)
  have h2: "0 < (\<Sum>k<?n. unat (?caps ! k))" "(\<Sum>k<?n. unat (?caps ! k)) < 2 ^ 64"
    unfolding S using n(1) c by simp_all
  have h3: "\<forall>k<?n. ?v * unat (?caps ! k) < 2 ^ 64"
    unfolding un uv using el c(3) by simp
  have h4: "?v < 2 ^ LENGTH(32)"
    unfolding uv using unsigned_less[of val, where 'a = nat] by simp
  from calibrate_spec[OF h1 h2 h3 h4] cal obtain out where
    out: "calibrate (ucast numb) (ucast val) ?caps (replicate (unat numb) (0 :: u32)) = Inr out"
    and v: "\<forall>i<length (replicate (unat numb) (0 :: u32)). unat (out ! i) =
        (if i < ?n
         then ?v * unat (?caps ! i) div (\<Sum>k<?n. unat (?caps ! k)) +
              (if i < ?v - (\<Sum>j<?n. ?v * unat (?caps ! j) div (\<Sum>k<?n. unat (?caps ! k)))
               then 1 else 0)
         else unat (replicate (unat numb) (0 :: u32) ! i))"
    by blast
  from out cal have ow: "out = w" by (simp add: calibrate32_def)
  have fl: "?v * unat (?caps ! j) div (\<Sum>k<?n. unat (?caps ! k)) = unat val div unat numb"
    if "j < unat numb" for j
    unfolding S uv el[OF that] using c(1) by (simp add: mult.commute)
  have sm: "(\<Sum>j<?n. ?v * unat (?caps ! j) div (\<Sum>k<?n. unat (?caps ! k))) = unat val"
  proof -
    have "(\<Sum>j<unat numb. ?v * unat (?caps ! j) div (\<Sum>k<?n. unat (?caps ! k)))
            = (\<Sum>j<unat numb. unat val div unat numb)"
      by (rule sum.cong) (simp_all add: fl)
    also have "\<dots> = unat numb * (unat val div unat numb)" by simp
    also have "\<dots> = unat val" using dv by (simp add: mod_eq_0_iff_dvd)
    finally show ?thesis by (simp add: un)
  qed
  show ?thesis
  proof (intro allI impI)
    fix i assume i: "i < unat numb"
    from v i have "unat (out ! i) =
         ?v * unat (?caps ! i) div (\<Sum>k<?n. unat (?caps ! k)) +
              (if i < ?v - (\<Sum>j<?n. ?v * unat (?caps ! j) div (\<Sum>k<?n. unat (?caps ! k)))
               then 1 else 0)"
      by (simp add: un)
    then show "unat (w ! i) = unat val div unat numb"
      unfolding sm fl[OF i] ow by (simp add: uv)
  qed
qed

text \<open>
  What the shortcut of \<open>balance_spl\<close> does establish. Let \<open>nums * factor\<close> be
  divisible by \<open>numb\<close>, with \<open>numb \<le> nums\<close> (then \<open>nums % numb == 0\<close>, which is what
  the code tests), and let the allocations and the calibration of the new weights
  succeed. Then \<open>spl\<close> returns 0 and is a pure stretch: every old slot is copied into
  its \<open>factor\<close> consecutive new slots and nothing is moved, so every brick holds
  \<open>factor\<close> times the slots it held. When all capacities are equal, every new weight
  is \<open>nums * factor / numb\<close>, and a brick that held \<open>nums / numb\<close> slots holds
  exactly its new weight.
\<close>

lemma spl_pure_stretch:
  fixes fact_bits :: u32
  assumes nb: "dcx_nums_bits (dcx st) + unat fact_bits \<le> 31"
    and t: "dcx_tab (dcx st) = Some t" "length t = 2 ^ dcx_nums_bits (dcx st)"
    and numb: "0 < unat (dcx_numb (dcx st))" "unat (dcx_numb (dcx st)) \<le> length (buckets st)"
      "unat (dcx_numb (dcx st)) \<le> 2 ^ dcx_nums_bits (dcx st)"
    and dv: "(2 ^ (dcx_nums_bits (dcx st) + unat fact_bits) :: nat) mod unat (dcx_numb (dcx st)) = 0"
    and al: "alloc_ok e (2 ^ (dcx_nums_bits (dcx st) + unat fact_bits))"
      "alloc_ok e (unat (dcx_numb (dcx st)))"
    and cal: "calibrate32 (dcx_numb (dcx st)) (2 ^ (dcx_nums_bits (dcx st) + unat fact_bits))
                (map b_cap (buckets st)) (replicate (unat (dcx_numb (dcx st))) 0) = Inr w"
  shows "\<exists>st' t'. spl_fsx32 e st fact_bits = Inr (0, st') \<and>
           dcx_nums_bits (dcx st') = dcx_nums_bits (dcx st) + unat fact_bits \<and>
           dcx_numb (dcx st') = dcx_numb (dcx st) \<and>
           dcx_weights (dcx st') = Some w \<and>
           dcx_tab (dcx st') = Some t' \<and>
           length t' = 2 ^ (dcx_nums_bits (dcx st) + unat fact_bits) \<and>
           (\<forall>s<2 ^ dcx_nums_bits (dcx st). \<forall>j<2 ^ unat fact_bits. t' ! (s * 2 ^ unat fact_bits + j) = t ! s) \<and>
           (\<forall>x. count_list t' x = 2 ^ unat fact_bits * count_list t x) \<and>
           ((\<forall>i<unat (dcx_numb (dcx st)). b_cap (buckets st ! i) = c) \<and> 0 < unat c \<and>
            unat (dcx_numb (dcx st)) * unat c < 2 ^ 64 \<and>
            2 ^ (dcx_nums_bits (dcx st) + unat fact_bits) * unat c < 2 ^ 64 \<longrightarrow>
              (\<forall>i<unat (dcx_numb (dcx st)).
                 unat (w ! i) = 2 ^ (dcx_nums_bits (dcx st) + unat fact_bits) div unat (dcx_numb (dcx st)) \<and>
                 (count_list t (ucast (b_id (buckets st ! i))) =
                    2 ^ dcx_nums_bits (dcx st) div unat (dcx_numb (dcx st)) \<longrightarrow>
                  count_list t' (ucast (b_id (buckets st ! i))) = unat (w ! i))))"
proof -
  let ?nb = "dcx_nums_bits (dcx st)"
  let ?n = "unat (dcx_numb (dcx st))"
  let ?f = "(2 :: nat) ^ unat fact_bits"
  let ?t' = "concat (map (replicate ?f) t)"
  have n0: "dcx_numb (dcx st) \<noteq> 0" using numb(1) by (simp add: unat_gt_0)
  have "?n dvd 2 ^ (?nb + unat fact_bits)" using dv by (simp add: dvd_eq_mod_eq_0)
  from pow2_dvd_smaller[OF this numb(3)] have dvd: "?n dvd 2 ^ ?nb" .
  then have dv': "(2 ^ ?nb :: nat) mod ?n = 0" by (simp add: dvd_eq_mod_eq_0)
  note sp = spl_fsx32_pure[OF nb t n0 numb(2) dv' al cal]
  have len: "length ?t' = 2 ^ (?nb + unat fact_bits)"
    by (simp add: length_concat_replicate t(2) power_add)
  have cp: "?t' ! (s * ?f + j) = t ! s" if "s < 2 ^ ?nb" "j < ?f" for s j
  proof -
    have "s * ?f + j < Suc s * ?f" using that by simp
    also have "\<dots> \<le> length t * ?f" using that t(2) by (intro mult_le_mono1) simp
    finally have "?t' ! (s * ?f + j) = t ! ((s * ?f + j) div ?f)"
      by (rule nth_concat_replicate)
    then show ?thesis using that by simp
  qed
  have uv: "unat (2 ^ (?nb + unat fact_bits) :: u32) = 2 ^ (?nb + unat fact_bits)"
    using nb by (simp add: unat_pow2_32)
  have bal: "\<forall>i<?n. unat (w ! i) = 2 ^ (?nb + unat fact_bits) div ?n \<and>
                 (count_list t (ucast (b_id (buckets st ! i))) = 2 ^ ?nb div ?n \<longrightarrow>
                  count_list ?t' (ucast (b_id (buckets st ! i))) = unat (w ! i))"
    if eq: "\<forall>i<?n. b_cap (buckets st ! i) = c" and c: "0 < unat c" "?n * unat c < 2 ^ 64"
      "2 ^ (?nb + unat fact_bits) * unat c < 2 ^ 64"
  proof -
    have c3: "unat (2 ^ (?nb + unat fact_bits) :: u32) * unat c < 2 ^ 64" using c(3) by (simp only: uv)
    have d3: "unat (2 ^ (?nb + unat fact_bits) :: u32) mod ?n = 0" using dv by (simp only: uv)
    from calibrate32_equal_caps[OF numb(1,2) eq c(1,2) c3 d3 cal]
    have w: "\<forall>i<?n. unat (w ! i) = 2 ^ (?nb + unat fact_bits) div ?n" by (simp only: uv)
    have "2 ^ (?nb + unat fact_bits) div ?n = ?f * (2 ^ ?nb div ?n)"
      using dvd by (simp add: power_add div_mult_swap mult.commute)
    with w show ?thesis by (simp add: count_list_concat_replicate)
  qed
  show ?thesis
    by (intro exI[of _ "\<lparr>dcx = (dcx st)\<lparr>dcx_nums_bits := ?nb + unat fact_bits,
                                   dcx_weights := Some w, dcx_tab := Some ?t'\<rparr>,
                    buckets = map (\<lambda>b. b\<lparr>b_fib := None\<rparr>) (take ?n (buckets st)) @
                              drop ?n (buckets st)\<rparr>"] exI[of _ ?t'])
       (use sp len cp bal in \<open>simp add: count_list_concat_replicate\<close>)
qed

text \<open>
  Claim C5 does not hold of the code. When \<open>nums % numb == 0\<close> the code takes the
  stretched table for balanced (\<open>/* everything is balanced */\<close>) and moves nothing,
  whatever the capacities are. Four bricks of capacities 1, 1, 1, 2 share 1024 slots as
  205, 205, 205, 409, the weights that \<open>calibrate\<close> gives, and the table agrees with
  them. \<open>spl\<close> with \<open>fact_bits = 1\<close> returns 0 after a pure stretch; the new weights
  are 410, 410, 409, 819, while the stretched table holds 410, 410, 410 and 818 slots
  of the four bricks: it is not calibrated against the new weights, which is what the
  relocation on the other path of \<open>balance_spl\<close> is there to establish.
\<close>

theorem spl_stretch_miscalibrated:
  "calibrate32 4 (2 ^ 10) [1, 1, 1, 2] [0, 0, 0, 0] = Inr [205, 205, 205, 409] \<and>
   count_list (replicate 205 1 @ replicate 205 2 @ replicate 205 3 @ replicate 409 4)
     (3 :: u32) = 205 \<and>
   count_list (replicate 205 1 @ replicate 205 2 @ replicate 205 3 @ replicate 409 4)
     (4 :: u32) = 409 \<and>
   spl_fsx32 \<lparr>alloc_ok = (\<lambda>n. True), space_occupied = 0\<rparr>
     \<lparr>dcx = \<lparr>dcx_numb = 4, dcx_nums_bits = 10, dcx_weights = Some [205, 205, 205, 409],
              dcx_tab = Some (replicate 205 1 @ replicate 205 2 @ replicate 205 3 @
                              replicate 409 4)\<rparr>,
      buckets = [\<lparr>b_id = 1, b_cap = 1, b_fib = None, b_fib_len = 0\<rparr>,
                 \<lparr>b_id = 2, b_cap = 1, b_fib = None, b_fib_len = 0\<rparr>,
                 \<lparr>b_id = 3, b_cap = 1, b_fib = None, b_fib_len = 0\<rparr>,
                 \<lparr>b_id = 4, b_cap = 2, b_fib = None, b_fib_len = 0\<rparr>]\<rparr> 1 =
     Inr (0, \<lparr>dcx = \<lparr>dcx_numb = 4, dcx_nums_bits = 11,
                     dcx_weights = Some [410, 410, 409, 819],
                     dcx_tab = Some (concat (map (replicate 2)
                                 (replicate 205 1 @ replicate 205 2 @ replicate 205 3 @
                                  replicate 409 4)))\<rparr>,
              buckets = [\<lparr>b_id = 1, b_cap = 1, b_fib = None, b_fib_len = 0\<rparr>,
                         \<lparr>b_id = 2, b_cap = 1, b_fib = None, b_fib_len = 0\<rparr>,
                         \<lparr>b_id = 3, b_cap = 1, b_fib = None, b_fib_len = 0\<rparr>,
                         \<lparr>b_id = 4, b_cap = 2, b_fib = None, b_fib_len = 0\<rparr>]\<rparr>) \<and>
   count_list (concat (map (replicate 2)
       (replicate 205 1 @ replicate 205 2 @ replicate 205 3 @ replicate 409 4))) (3 :: u32) = 410 \<and>
   count_list (concat (map (replicate 2)
       (replicate 205 1 @ replicate 205 2 @ replicate 205 3 @ replicate 409 4))) (4 :: u32) = 818"
proof -
  let ?e = "\<lparr>alloc_ok = (\<lambda>n. True), space_occupied = 0\<rparr>"
  let ?t = "replicate 205 1 @ replicate 205 2 @ replicate 205 3 @ replicate 409 (4 :: u32)"
  let ?vec = "[\<lparr>b_id = 1, b_cap = 1, b_fib = None, b_fib_len = 0\<rparr>,
                 \<lparr>b_id = 2, b_cap = 1, b_fib = None, b_fib_len = 0\<rparr>,
                 \<lparr>b_id = 3, b_cap = 1, b_fib = None, b_fib_len = 0\<rparr>,
                 \<lparr>b_id = 4, b_cap = 2, b_fib = None, b_fib_len = 0\<rparr>]"
  let ?st = "\<lparr>dcx = \<lparr>dcx_numb = 4, dcx_nums_bits = 10, dcx_weights = Some [205, 205, 205, 409],
              dcx_tab = Some ?t\<rparr>, buckets = ?vec\<rparr>"
  have c0: "calibrate32 4 (2 ^ 10) [1, 1, 1, 2] [0, 0, 0, 0] = Inr [205, 205, 205, 409]"
    by (simp add: calibrate32_def calibrate_def for_loop.simps rd_def wr_def)
  have c1: "calibrate32 (dcx_numb (dcx ?st)) (2 ^ (dcx_nums_bits (dcx ?st) + 1))
              (map b_cap (buckets ?st)) (replicate (unat (dcx_numb (dcx ?st))) 0)
            = Inr [410, 410, 409, 819]"
    by (simp add: calibrate32_def calibrate_def for_loop.simps rd_def wr_def replicate_numeral)
  have s: "spl_fsx32 ?e ?st 1 =
     Inr (0, \<lparr>dcx = \<lparr>dcx_numb = 4, dcx_nums_bits = 11,
                     dcx_weights = Some [410, 410, 409, 819],
                     dcx_tab = Some (concat (map (replicate 2) ?t))\<rparr>,
              buckets = ?vec\<rparr>)"
    by (subst spl_fsx32_pure[where t = ?t and w = "[410, 410, 409, 819]"])
       (simp_all add: c1[simplified])
  show ?thesis
    by (simp only: c0 s count_list_concat_replicate)
       (simp add: count_list_replicate)
qed

subsection \<open>Removing a brick with a null bucket (dec)\<close>

text \<open>
  Claim C6 does not hold of the code. \<open>balance_dec\<close> reads \<open>removeme->id\<close> before
  it tests \<open>removeme\<close>, so with \<open>removeme == NULL\<close> it uses the null bucket whatever
  the other arguments are; \<open>dec_fsx32\<close> faults there (here for two bricks over eight
  slots, brick 1 shrinking from six slots to four). The rest of the body does not do
  what the claim says either: the walk over the fiber of the target starts at
  \<open>old - new = 2\<close>, so brick 0 is handed the slots at positions 2 and 3 of that fiber
  (slots 4 and 5) and not the suffix beyond the new weight (slots 6 and 7); and the body
  then reads \<open>old_weights[new_numb]\<close>, past the end of the weights.
\<close>

theorem dec_null_removeme_faults:
  "balance_dec e new_numb work old_weights new_weights target_pos vec None = Inl NullPointer \<and>
   dec_fsx32 \<lparr>alloc_ok = (\<lambda>n. True), space_occupied = 0\<rparr>
     \<lparr>dcx = \<lparr>dcx_numb = 2, dcx_nums_bits = 3, dcx_weights = Some [2, 6], dcx_tab = None\<rparr>,
      buckets = [\<lparr>b_id = 10, b_cap = 1, b_fib = Some [0, 1], b_fib_len = 2\<rparr>,
                 \<lparr>b_id = 20, b_cap = 1, b_fib = Some [2, 3, 4, 5, 6, 7], b_fib_len = 6\<rparr>]\<rparr>
     [10, 10, 20, 20, 20, 20, 20, 20] 1 None = Inl NullPointer \<and>
   for_loop 0 1
     (hand_out [\<lparr>b_id = 10, b_cap = 1, b_fib = Some [0, 1], b_fib_len = 2\<rparr>,
                \<lparr>b_id = 20, b_cap = 1, b_fib = Some [2, 3, 4, 5, 6, 7], b_fib_len = 6\<rparr>]
        (Some [2, 3, 4, 5, 6, 7]) [2, 4294967294])
     ([10, 10, 20, 20, 20, 20, 20, 20], 6 - 4) = Inr ([10, 10, 20, 20, 10, 10, 20, 20], 4) \<and>
   balance_dec_body \<lparr>alloc_ok = (\<lambda>n. True), space_occupied = 0\<rparr> 2
     [10, 10, 20, 20, 20, 20, 20, 20] (Some [2, 6]) [4, 4] 1
     [\<lparr>b_id = 10, b_cap = 1, b_fib = Some [0, 1], b_fib_len = 2\<rparr>,
      \<lparr>b_id = 20, b_cap = 1, b_fib = Some [2, 3, 4, 5, 6, 7], b_fib_len = 6\<rparr>] None
     = Inl OutOfBounds"
  by (simp add: balance_dec_def balance_dec_body_def dec_fsx32_def check_space_def
        calibrate32_def calibrate64_def calibrate_def clone_systab_def fsx32_alloc_def
        fsx64_alloc_def for_loop.simps rd_def wr_def cap_at_def hand_out_def idx2id_def
        shortage_left_def shortage_right_def fib_at_def touch_fiber_def rdp_def
        replicate_numeral)

subsection \<open>Minimal movement of slots (inc and dec)\<close>

lemma touch_fiber_partial: "touch_fiber vec i n s = Inr s' \<Longrightarrow> s' = s"
  unfolding touch_fiber_def
  by (erule for_loop_partial[where P = "\<lambda>k t. t = s"])
     (auto simp: bnd_eq_Inr)

lemma diff_count_card:
  "diff_count xs ys = card {s. s < length xs \<and> xs ! s \<noteq> ys ! s}"
proof -
  have "distinct (filter (\<lambda>s. xs ! s \<noteq> ys ! s) [0..<length xs])" by simp
  then have "diff_count xs ys = card (set (filter (\<lambda>s. xs ! s \<noteq> ys ! s) [0..<length xs]))"
    unfolding diff_count_def by (simp only: distinct_card)
  also have "set (filter (\<lambda>s. xs ! s \<noteq> ys ! s) [0..<length xs])
               = {s. s < length xs \<and> xs ! s \<noteq> ys ! s}"
    by auto
  finally show ?thesis .
qed

lemma sum_list_take_nth:
  "n \<le> length xs \<Longrightarrow> sum_list (map f (take n xs)) = (\<Sum>k<n. f (xs ! k))"
proof (induction n)
  case 0
  then show ?case by simp
next
  case (Suc n)
  then show ?case by (simp add: take_Suc_conv_app_nth)
qed

lemma sum_list_nth: "sum_list (map f xs) = (\<Sum>k<length xs. f (xs ! k))"
  using sum_list_take_nth[of "length xs" xs f] by simp

lemma calibrate_total:
  fixes ret :: "'a::len word list"
  assumes "unat num \<le> length caps" "unat num \<le> length ret" "0 < unat num"
    and "0 < (\<Sum>k<unat num. unat (caps ! k))" "(\<Sum>k<unat num. unat (caps ! k)) < 2 ^ 64"
    and "\<forall>k<unat num. unat val * unat (caps ! k) < 2 ^ 64"
    and "unat val < 2 ^ LENGTH('a)"
  shows "\<exists>out. calibrate num val caps ret = Inr out \<and> length out = length ret \<and>
           (\<Sum>i<unat num. unat (out ! i)) = unat val"
proof -
  let ?n = "unat num"
  let ?S = "\<Sum>k<?n. unat (caps ! k)"
  let ?f = "\<lambda>i. unat val * unat (caps ! i) div ?S"
  let ?rest = "unat val - (\<Sum>j<?n. ?f j)"
  from calibrate_spec[OF assms] obtain out where
    out: "calibrate num val caps ret = Inr out" "length out = length ret"
    and el: "\<forall>i<length ret. unat (out ! i) =
        (if i < ?n then ?f i + (if i < ?rest then 1 else 0) else unat (ret ! i))"
    by blast
  have el': "unat (out ! i) = ?f i + (if i < ?rest then 1 else 0)" if "i < ?n" for i
    using el that assms(2) by simp
  have fle: "(\<Sum>j<?n. ?f j) \<le> unat val" using assms(4) by (rule floor_sum_le)
  have restn: "?rest \<le> ?n" using floor_rest_less[OF assms(4,3), of "unat val"] by simp
  have "(\<Sum>i<?n. unat (out ! i)) = (\<Sum>i<?n. ?f i + (if i < ?rest then 1 else 0))"
    by (rule sum.cong) (simp_all add: el')
  also have "\<dots> = (\<Sum>i<?n. ?f i) + (\<Sum>i<?n. if i < ?rest then 1 else 0)"
    by (simp add: sum.distrib)
  also have "\<dots> = (\<Sum>i<?n. ?f i) + ?rest"
    by (simp only: sum_indicator_less[OF restn])
  also have "\<dots> = unat val" using fle by simp
  finally have "(\<Sum>i<?n. unat (out ! i)) = unat val" .
  with out show ?thesis by auto
qed

lemma calibrate32_total:
  assumes ok: "caps_ok (unat numb) (unat val) vec"
    and cal: "calibrate32 numb val (map b_cap vec) (replicate (unat numb) 0) = Inr w"
  shows "length w = unat numb" "sum_list (map unat w) = unat val"
proof -
  let ?n = "unat (ucast numb :: u64)"
  let ?v = "unat (ucast val :: u64)"
  let ?caps = "map b_cap vec"
  have un: "?n = unat numb" and uv: "?v = unat val"
    by (simp_all add: unsigned_ucast_eq take_bit_nat_eq_self
          order_less_le_trans[OF unsigned_less[of _, where 'a = nat]])
  from ok have n: "0 < unat numb" "unat numb \<le> length vec"
    and s: "0 < sum_list (map (\<lambda>b. unat (b_cap b)) (take (unat numb) vec))"
      "sum_list (map (\<lambda>b. unat (b_cap b)) (take (unat numb) vec)) < 2 ^ 64"
    and p: "list_all (\<lambda>b. unat val * unat (b_cap b) < 2 ^ 64) (take (unat numb) vec)"
    by (simp_all add: caps_ok_def)
  have S: "(\<Sum>k<?n. unat (?caps ! k)) = sum_list (map (\<lambda>b. unat (b_cap b)) (take (unat numb) vec))"
    unfolding un using n(2) by (simp add: sum_list_take_nth)
  have h1: "?n \<le> length ?caps" "?n \<le> length (replicate (unat numb) (0 :: u32))" "0 < ?n"
    using n by (simp_all add: un)
  have h2: "0 < (\<Sum>k<?n. unat (?caps ! k))" "(\<Sum>k<?n. unat (?caps ! k)) < 2 ^ 64"
    unfolding S using s by simp_all
  have h3: "\<forall>k<?n. ?v * unat (?caps ! k) < 2 ^ 64"
  proof (intro allI impI)
    fix k assume "k < ?n"
    then have k: "k < unat numb" by (simp add: un)
    then have "vec ! k \<in> set (take (unat numb) vec)"
      using n(2) by (metis length_take min.absorb2 nth_mem nth_take)
    with p have "unat val * unat (b_cap (vec ! k)) < 2 ^ 64" by (simp add: list_all_iff)
    then show "?v * unat (?caps ! k) < 2 ^ 64" using k n(2) by (simp add: uv)
  qed
  have h4: "?v < 2 ^ LENGTH(32)"
    unfolding uv using unsigned_less[of val, where 'a = nat] by simp
  from calibrate_total[OF h1 h2 h3 h4] cal have
    l: "length w = length (replicate (unat numb) (0 :: u32))"
    and sm: "(\<Sum>i<?n. unat (w ! i)) = ?v"
    by (auto simp: calibrate32_def)
  from l show "length w = unat numb" by simp
  then show "sum_list (map unat w) = unat val"
    using sm by (simp add: sum_list_nth un uv)
qed

lemma unat_of_nat_pred_32:
  "0 < i \<Longrightarrow> i < 2 ^ 32 \<Longrightarrow> unat ((of_nat i :: u32) - 1) = i - 1"
proof -
  assume i: "0 < i" "i < 2 ^ 32"
  then have "(of_nat i :: u32) - 1 = of_nat (i - 1)" by (cases i) simp_all
  moreover have "i - 1 < 2 ^ 32" using i by simp
  ultimately show ?thesis by (simp only: unat_of_nat_32)
qed

lemma excess_loops:
  assumes len: "length ow = n_old" "length nw = n_new"
    and tp: "tp < n_new"
    and n: "n_new = (if has_new then Suc n_old else n_old)" "n_new < 2 ^ 32"
  shows "\<exists>exc. bnd (for_loop 0 tp (excess_left (Some ow) nw) (replicate n_new 0))
                  (for_loop (Suc tp) n_new (excess_right has_new (Some ow) nw)) = Inr exc \<and>
           length exc = n_new \<and>
           (\<forall>i<n_new. exc ! i =
              (if i = tp then 0
               else ow ! (if has_new \<and> tp < i then i - 1 else i) - nw ! i))"
proof -
  let ?P1 = "\<lambda>k (x :: u32 list). length x = n_new \<and>
      (\<forall>i<n_new. x ! i = (if i < k then ow ! i - nw ! i else 0))"
  have "\<exists>x. for_loop 0 tp (excess_left (Some ow) nw) (replicate n_new 0) = Inr x \<and> ?P1 tp x"
  proof (rule for_loop_total[where P = ?P1], goal_cases)
    case (3 k x)
    have "k < length ow" using 3 tp n len by (auto split: if_splits)
    then show ?case using 3 tp len
      by (auto simp: excess_left_def rd_def wr_def nth_list_update less_Suc_eq)
  qed (simp_all add: tp)
  then obtain x1 where x1: "for_loop 0 tp (excess_left (Some ow) nw) (replicate n_new 0) = Inr x1"
    "?P1 tp x1" by blast
  let ?old = "\<lambda>i. if has_new \<and> tp < i then i - 1 else i"
  let ?P2 = "\<lambda>k (x :: u32 list). length x = n_new \<and>
      (\<forall>i<n_new. x ! i = (if i < tp then ow ! i - nw ! i
                          else if tp < i \<and> i < k then ow ! ?old i - nw ! i else 0))"
  have "\<exists>x. for_loop (Suc tp) n_new (excess_right has_new (Some ow) nw) x1 = Inr x \<and> ?P2 n_new x"
  proof (rule for_loop_total[where P = ?P2], goal_cases)
    case 1
    then show ?case using tp by simp
  next
    case 2
    then show ?case using x1(2) by auto
  next
    case (3 k x)
    have k32: "0 < k" "k < 2 ^ 32" using 3 n(2) by simp_all
    have ix: "(if has_new then unat ((of_nat k :: u32) - 1) else k) = ?old k"
      using 3 by (simp add: unat_of_nat_pred_32[OF k32])
    have "?old k < length ow" using 3 n len by (auto split: if_splits)
    then show ?case using 3 len ix
      by (auto simp: excess_right_def rd_def wr_def nth_list_update less_Suc_eq
               simp del: of_nat_diff)
  qed
  then obtain x2 where x2: "for_loop (Suc tp) n_new (excess_right has_new (Some ow) nw) x1 = Inr x2"
    "?P2 n_new x2" by blast
  have "\<forall>i<n_new. x2 ! i = (if i = tp then 0 else ow ! ?old i - nw ! i)"
    using x2(2) by (auto simp: not_less)
  with x1(1) x2 show ?thesis by auto
qed

lemma fib_el_Some:
  "i < length vec \<Longrightarrow> b_fib (vec ! i) = Some fib \<Longrightarrow> fib_el vec i k = rd fib k"
  by (simp add: fib_el_def fib_at_def rd_def)

lemma steal_segments_partial:
  assumes st: "steal_segments vec nw exc tpw i tab = Inr tab'"
    and i: "i < length vec" "i < length nw" "i < length exc"
    and fib: "b_fib (vec ! i) = Some fib" "length fib = unat owi"
    and e: "exc ! i = owi - nw ! i"
  shows "unat (nw ! i) \<le> unat owi"
    and "unat (exc ! i) = unat owi - unat (nw ! i)"
    and "length tab' = length tab"
    and "\<forall>s<length tab. tab' ! s =
           (if s \<in> (\<lambda>j. unat (fib ! (unat (nw ! i) + j))) ` {..<unat owi - unat (nw ! i)}
            then ucast (b_id (vec ! unat tpw)) else tab ! s)"
proof -
  define nwi where "nwi = nw ! i"
  define ev where "ev = exc ! i"
  let ?body = "\<lambda>j t. bnd (rd nw i) (\<lambda>nw.
       bnd (fib_el vec i (unat (nw + of_nat j))) (\<lambda>slot.
       bnd (idx2id vec (unat tpw)) (\<lambda>ident.
       wr t (unat slot) (ucast ident))))"
  let ?img = "\<lambda>j. (\<lambda>j'. unat (fib ! unat (nwi + of_nat j'))) ` {..<j}"
  let ?P = "\<lambda>j t. length t = length tab \<and> (0 < j \<longrightarrow> unat nwi < unat owi) \<and>
      (\<forall>s<length tab. t ! s = (if s \<in> ?img j then ucast (b_id (vec ! unat tpw)) else tab ! s))"
  from st have loop: "for_loop 0 (unat ev) ?body tab = Inr tab'"
    using i(3) by (simp add: steal_segments_def rd_def ev_def)
  have P: "?P (unat ev) tab'"
  proof (rule for_loop_partial[OF loop, where P = ?P], goal_cases)
    case (3 j t t')
    from 3(4) obtain slot ident where
      b: "fib_el vec i (unat (nwi + of_nat j)) = Inr slot"
         "idx2id vec (unat tpw) = Inr ident" "wr t (unat slot) (ucast ident) = Inr t'"
      using i(2) by (auto simp: bnd_eq_Inr rd_def nwi_def)
    from b(1) have k: "unat (nwi + of_nat j) < length fib" "slot = fib ! unat (nwi + of_nat j)"
      by (auto simp: fib_el_Some[OF i(1) fib(1)] rd_def split: if_splits)
    from b(2) have id: "ident = b_id (vec ! unat tpw)"
      by (auto simp: idx2id_def rd_def bnd_eq_Inr split: if_splits)
    from b(3) have w: "unat slot < length t" "t' = t[unat slot := ucast ident]"
      by (auto simp: wr_def split: if_splits)
    have first: "unat nwi < unat owi" if "j = 0"
      using k(1) that fib(2) by simp
    have "?img (Suc j) = insert (unat slot) (?img j)"
      by (auto simp: k(2) less_Suc_eq)
    with 3(3) w id first show ?case
      by (auto simp: nth_list_update)
  qed simp_all
  have nowrap: "unat ev = unat owi - unat nwi" "unat nwi \<le> unat owi"
  proof -
    show "unat nwi \<le> unat owi"
    proof (cases "ev = 0")
      case True
      then show ?thesis using e by (simp add: ev_def nwi_def)
    next
      case False
      then have "0 < unat ev" by (simp add: unat_gt_0)
      with P show ?thesis by simp
    qed
    then have "nwi \<le> owi" by (simp add: word_le_nat_alt)
    then show "unat ev = unat owi - unat nwi"
      using e by (simp add: ev_def nwi_def unat_sub)
  qed
  have idx: "unat (nwi + of_nat j) = unat nwi + j" if "j < unat ev" for j
  proof -
    have "unat nwi + j < unat owi" using that nowrap by simp
    moreover have "unat owi < 2 ^ 32" using unsigned_less[of owi, where 'a = nat] by simp
    ultimately have lt: "unat nwi + j < 2 ^ 32" and j32: "j < 2 ^ 32" by simp_all
    have "unat (nwi + of_nat j) = (unat nwi + unat (of_nat j :: u32)) mod 2 ^ 32"
      by (simp add: unat_word_ariths)
    then show ?thesis using lt unat_of_nat_32[OF j32] by simp
  qed
  have img: "?img (unat ev) = (\<lambda>j. unat (fib ! (unat nwi + j))) ` {..<unat owi - unat nwi}"
    unfolding nowrap(1)[symmetric] by (rule image_cong) (simp_all add: idx)
  show "unat (nw ! i) \<le> unat owi" using nowrap(2) by (simp add: nwi_def)
  show "unat (exc ! i) = unat owi - unat (nw ! i)" using nowrap(1) by (simp add: nwi_def ev_def)
  show "length tab' = length tab" using P by simp
  show "\<forall>s<length tab. tab' ! s =
           (if s \<in> (\<lambda>j. unat (fib ! (unat (nw ! i) + j))) ` {..<unat owi - unat (nw ! i)}
            then ucast (b_id (vec ! unat tpw)) else tab ! s)"
    using P unfolding img by (simp add: nwi_def)
qed

lemma balance_inc_partial:
  assumes b: "balance_inc e new_numb work (Some ow) nw tpw vec new = Inr (0, tab')"
    and len: "length ow = n_old" "length nw = n_new" "length vec = n_new"
      "unat new_numb = n_new"
    and tp: "unat tpw < n_new"
    and n: "n_new = (if new \<noteq> None then Suc n_old else n_old)"
    and fibs: "\<forall>i<n_new. i \<noteq> unat tpw \<longrightarrow>
        b_fib (vec ! i) = Some (fibs i) \<and>
        length (fibs i) = unat (ow ! inc_old_pos new (unat tpw) i)"
  defines "S \<equiv> \<lambda>i. (\<lambda>j. unat (fibs i ! (unat (nw ! i) + j))) `
                     {..<unat (ow ! inc_old_pos new (unat tpw) i) - unat (nw ! i)}"
  shows "\<forall>i<n_new. i \<noteq> unat tpw \<longrightarrow> unat (nw ! i) \<le> unat (ow ! inc_old_pos new (unat tpw) i)"
    and "length tab' = length work"
    and "\<forall>s<length work. tab' ! s =
           (if \<exists>i<n_new. i \<noteq> unat tpw \<and> s \<in> S i
            then ucast (b_id (vec ! unat tpw)) else work ! s)"
proof -
  define tp where "tp = unat tpw"
  define idt :: u32 where "idt = ucast (b_id (vec ! tp))"
  define old where "old = inc_old_pos new tp"
  have n32: "n_new < 2 ^ 32" using unsigned_less[of new_numb, where 'a = nat] len(4) by simp
  have tp1: "unat (tpw + 1) = Suc tp"
  proof -
    have "unat tpw + 1 < 2 ^ 32" using tp n32 by simp
    then show ?thesis by (simp add: unat_word_ariths tp_def)
  qed
  from excess_loops[OF len(1,2) tp[folded tp_def] n n32] obtain exc where
    exc: "bnd (for_loop 0 tp (excess_left (Some ow) nw) (replicate n_new 0))
            (for_loop (Suc tp) n_new (excess_right (new \<noteq> None) (Some ow) nw)) = Inr exc"
      "length exc = n_new"
      "\<forall>i<n_new. exc ! i = (if i = tp then 0 else ow ! old i - nw ! i)"
    by (auto simp: old_def inc_old_pos_def)
  from exc(1) obtain exc1 where
    e1: "for_loop 0 tp (excess_left (Some ow) nw) (replicate n_new 0) = Inr exc1"
    and e2: "for_loop (Suc tp) n_new (excess_right (new \<noteq> None) (Some ow) nw) exc1 = Inr exc"
    by (auto simp: bnd_eq_Inr)
  let ?right = "\<lambda>i t. bnd (rd nw i) (\<lambda>nwi. bnd (touch_fiber vec i nwi t)
                  (\<lambda>t. steal_segments vec nw exc tpw i t))"
  have al: "fsx32_alloc e n_new = Some (replicate n_new 0)"
    using b by (cases "alloc_ok e n_new") (simp_all add: balance_inc_def fsx32_alloc_def len(4))
  have "bnd (for_loop 0 tp (steal_segments vec nw exc tpw) work)
          (\<lambda>tab. bnd (for_loop (Suc tp) n_new ?right tab) (\<lambda>tab. Inr (0, tab))) = Inr (0::int, tab')"
    using b unfolding balance_inc_def len(4) tp1 tp_def[symmetric] al
    by (simp only: option.case e1 e2 bnd_Inr)
  then obtain tab1 where
    l: "for_loop 0 tp (steal_segments vec nw exc tpw) work = Inr tab1"
    and r: "for_loop (Suc tp) n_new ?right tab1 = Inr tab'"
    by (auto simp: bnd_eq_Inr)
  have step: "unat (nw ! k) \<le> unat (ow ! old k) \<and> length t' = length t \<and>
        (\<forall>s<length t. t' ! s = (if s \<in> S k then idt else t ! s))"
    if "steal_segments vec nw exc tpw k t = Inr t'" "k < n_new" "k \<noteq> tp" for k t t'
  proof -
    have f: "b_fib (vec ! k) = Some (fibs k)" "length (fibs k) = unat (ow ! old k)"
      using fibs that by (simp_all add: tp_def old_def)
    have e: "exc ! k = ow ! old k - nw ! k" using exc(3) that by simp
    from steal_segments_partial[OF that(1) _ _ _ f e] that(2) len exc(2)
    show ?thesis by (simp add: S_def idt_def tp_def old_def)
  qed
  let ?Q = "\<lambda>k t. length t = length work \<and>
      (\<forall>i<k. i \<noteq> tp \<longrightarrow> unat (nw ! i) \<le> unat (ow ! old i)) \<and>
      (\<forall>s<length work. t ! s = (if \<exists>i<k. i \<noteq> tp \<and> s \<in> S i then idt else work ! s))"
  have Q1: "?Q tp tab1"
  proof (rule for_loop_partial[OF l, where P = ?Q], goal_cases)
    case (3 k t t')
    have k: "k < n_new" "k \<noteq> tp" using 3 tp by (simp_all add: tp_def)
    from step[OF 3(4) k] 3(3) k(2) show ?case
      by (auto simp: less_Suc_eq)
  qed simp_all
  have Q2: "?Q n_new tab'"
  proof (rule for_loop_partial[OF r, where P = ?Q], goal_cases)
    case 1
    then show ?case using tp by (simp add: tp_def)
  next
    case 2
    then show ?case using Q1 by (auto simp: less_Suc_eq)
  next
    case (3 k t t')
    have k: "k < n_new" "k \<noteq> tp" using 3 by simp_all
    from 3(4) obtain t1 where "touch_fiber vec k (nw ! k) t = Inr t1"
      "steal_segments vec nw exc tpw k t1 = Inr t'"
      using k len by (auto simp: bnd_eq_Inr rd_def)
    with touch_fiber_partial have "steal_segments vec nw exc tpw k t = Inr t'" by metis
    from step[OF this k] 3(3) k(2) show ?case
      by (auto simp: less_Suc_eq)
  qed
  show "\<forall>i<n_new. i \<noteq> unat tpw \<longrightarrow> unat (nw ! i) \<le> unat (ow ! inc_old_pos new (unat tpw) i)"
    using Q2 by (simp add: tp_def old_def)
  show "length tab' = length work" using Q2 by simp
  show "\<forall>s<length work. tab' ! s =
           (if \<exists>i<n_new. i \<noteq> unat tpw \<and> s \<in> S i
            then ucast (b_id (vec ! unat tpw)) else work ! s)"
    using Q2 unfolding tp_def idt_def by blast
qed

lemma changed_count:
  fixes T tab' :: "'a list"
  assumes fin: "finite I"
    and tab: "\<forall>s<length T. tab' ! s = (if \<exists>i\<in>I. s \<in> S i then x else T ! s)"
    and old: "\<forall>i\<in>I. \<forall>s\<in>S i. s < length T \<and> T ! s = c i"
    and neq: "\<forall>i\<in>I. c i \<noteq> x"
    and inj: "inj_on c I"
  shows "diff_count T tab' = (\<Sum>i\<in>I. card (S i))"
proof -
  have finS: "finite (S i)" if "i \<in> I" for i
  proof (rule finite_subset)
    show "S i \<subseteq> {..<length T}" using old that by auto
  qed simp
  have ch: "T ! s \<noteq> tab' ! s \<longleftrightarrow> (\<exists>i\<in>I. s \<in> S i)" if "s < length T" for s
  proof (cases "\<exists>i\<in>I. s \<in> S i")
    case True
    then obtain i where i: "i \<in> I" "s \<in> S i" by blast
    then have "T ! s = c i" "c i \<noteq> x" using old neq by simp_all
    moreover have "tab' ! s = x" using tab that True by simp
    ultimately show ?thesis using True by simp
  next
    case False
    then show ?thesis using tab that by simp
  qed
  have "{s. s < length T \<and> T ! s \<noteq> tab' ! s} = (\<Union>i\<in>I. S i)"
  proof (intro equalityI subsetI)
    fix s assume "s \<in> {s. s < length T \<and> T ! s \<noteq> tab' ! s}"
    then show "s \<in> (\<Union>i\<in>I. S i)" using ch by blast
  next
    fix s assume "s \<in> (\<Union>i\<in>I. S i)"
    then obtain i where i: "i \<in> I" "s \<in> S i" by blast
    then have "s < length T" using old by simp
    then show "s \<in> {s. s < length T \<and> T ! s \<noteq> tab' ! s}" using ch i by blast
  qed
  moreover have "card (\<Union>i\<in>I. S i) = (\<Sum>i\<in>I. card (S i))"
  proof (rule card_UN_disjoint[OF fin])
    show "\<forall>i\<in>I. finite (S i)" using finS by simp
    show "\<forall>i\<in>I. \<forall>j\<in>I. i \<noteq> j \<longrightarrow> S i \<inter> S j = {}"
    proof (intro ballI impI)
      fix i j assume ij: "i \<in> I" "j \<in> I" "i \<noteq> j"
      then have ne: "c i \<noteq> c j" using inj by (auto dest: inj_onD)
      show "S i \<inter> S j = {}"
      proof (rule ccontr)
        assume "S i \<inter> S j \<noteq> {}"
        then obtain s where "s \<in> S i" "s \<in> S j" by blast
        then have "T ! s = c i" "T ! s = c j" using old ij by blast+
        with ne show False by simp
      qed
    qed
  qed
  ultimately show ?thesis by (simp add: diff_count_card)
qed

lemma card_fiber_segment:
  fixes fib :: "u32 list"
  assumes "distinct fib" "a + m \<le> length fib"
  shows "card ((\<lambda>j. unat (fib ! (a + j))) ` {..<m}) = m"
proof -
  have "inj_on (\<lambda>j. unat (fib ! (a + j))) {..<m}"
  proof (rule inj_onI)
    fix j k assume jk: "j \<in> {..<m}" "k \<in> {..<m}" "unat (fib ! (a + j)) = unat (fib ! (a + k))"
    then have "fib ! (a + j) = fib ! (a + k)" by (simp add: word_unat_eq_iff)
    moreover have "a + j < length fib" "a + k < length fib" using jk assms(2) by simp_all
    ultimately have "a + j = a + k" using assms(1) by (simp add: nth_eq_iff_index_eq)
    then show "j = k" by simp
  qed
  then show ?thesis by (simp add: card_image)
qed

lemma inc_fsx32_success:
  assumes wf: "inc_wf st t target_pos new"
    and r: "inc_fsx32 e st t target_pos new = Inr (0, st')"
  defines "new_numb \<equiv> (if new \<noteq> None then dcx_numb (dcx st) + 1 else dcx_numb (dcx st))"
  shows "\<exists>nw tab'.
      unat new_numb = length (buckets st) \<and>
      calibrate32 new_numb (2 ^ dcx_nums_bits (dcx st)) (map b_cap (buckets st))
        (replicate (unat new_numb) 0) = Inr nw \<and>
      balance_inc e new_numb (take (2 ^ dcx_nums_bits (dcx st)) t) (dcx_weights (dcx st)) nw
        (ucast target_pos) (buckets st) new = Inr (0, tab') \<and>
      dcx_weights (dcx st') = Some nw \<and> dcx_tab (dcx st') = Some tab'"
proof -
  have n: "unat new_numb = length (buckets st)"
  proof (cases "new = None")
    case True
    then show ?thesis using wf by (simp add: inc_wf_def Let_def new_numb_def)
  next
    case False
    have "unat (dcx_numb (dcx st)) + 1 < 2 ^ 32" using wf by (simp add: inc_wf_def Let_def)
    then have "unat (dcx_numb (dcx st) + 1) = unat (dcx_numb (dcx st)) + 1"
      by (simp add: unat_word_ariths)
    then show ?thesis using wf False by (simp add: inc_wf_def Let_def new_numb_def)
  qed
  have t: "\<not> length t < 2 ^ dcx_nums_bits (dcx st)" using wf by (simp add: inc_wf_def Let_def)
  note r' = r[unfolded inc_fsx32_def Let_def new_numb_def[symmetric]]
  have c1: "(new \<noteq> None \<and> dcx_numb (dcx st) = MAX_BUCKETS) = False"
  proof (rule ccontr)
    assume "(new \<noteq> None \<and> dcx_numb (dcx st) = MAX_BUCKETS) \<noteq> False"
    then have "new \<noteq> None \<and> dcx_numb (dcx st) = MAX_BUCKETS" by simp
    with r' show False by simp
  qed
  note r1 = r'[unfolded c1 if_False]
  have c2: "(2 ^ dcx_nums_bits (dcx st) < new_numb) = False"
  proof (rule ccontr)
    assume "(2 ^ dcx_nums_bits (dcx st) < new_numb) \<noteq> False"
    then have "2 ^ dcx_nums_bits (dcx st) < new_numb" by simp
    with r1 show False by simp
  qed
  note r2 = r1[unfolded c2 if_False]
  have a1: "fsx32_alloc e (unat new_numb) = Some (replicate (unat new_numb) 0)"
  proof (rule ccontr)
    assume "fsx32_alloc e (unat new_numb) \<noteq> Some (replicate (unat new_numb) 0)"
    then have "fsx32_alloc e (unat new_numb) = None" by (simp add: fsx32_alloc_def split: if_splits)
    with r2 show False by simp
  qed
  note r3 = r2[unfolded a1 option.case]
  have a2: "clone_systab e (dcx st) t =
              Inr (0, dcx st\<lparr>dcx_tab := Some (take (2 ^ dcx_nums_bits (dcx st)) t)\<rparr>)"
  proof (rule ccontr)
    assume "clone_systab e (dcx st) t \<noteq>
              Inr (0, dcx st\<lparr>dcx_tab := Some (take (2 ^ dcx_nums_bits (dcx st)) t)\<rparr>)"
    then have "clone_systab e (dcx st) t = Inr (- ENOMEM, dcx st\<lparr>dcx_tab := None\<rparr>)"
      using t by (simp add: clone_systab_def split: option.splits)
    with r3 show False by simp
  qed
  note r4 = r3[unfolded a2 bnd_Inr prod.case]
  from r4 obtain nw ret work where
    cal: "calibrate32 new_numb (2 ^ dcx_nums_bits (dcx st)) (map b_cap (buckets st))
            (replicate (unat new_numb) 0) = Inr nw"
    and bal: "balance_inc e new_numb (take (2 ^ dcx_nums_bits (dcx st)) t)
                (dcx_weights (dcx st)) nw (ucast target_pos) (buckets st) new = Inr (ret, work)"
    and rest: "(if ret \<noteq> 0
        then Inr (ret, st\<lparr>dcx := free_cloned_systab
               (dcx st\<lparr>dcx_tab := Some (take (2 ^ dcx_nums_bits (dcx st)) t)\<rparr>)\<rparr>)
        else bnd (release_fibers (unat new_numb) (buckets st)) (\<lambda>vec.
               Inr (0, \<lparr>dcx = dcx st\<lparr>dcx_tab := Some (take (2 ^ dcx_nums_bits (dcx st)) t),
                                     dcx_numb := new_numb, dcx_weights := Some nw,
                                     dcx_tab := Some work\<rparr>,
                        buckets = vec\<rparr>))) = Inr (0, st')"
    by (simp add: deref_def bnd_eq_Inr) blast
  have ret: "ret = 0" using rest by (cases "ret = 0") simp_all
  from rest ret obtain vec' where
    "st' = \<lparr>dcx = dcx st\<lparr>dcx_tab := Some (take (2 ^ dcx_nums_bits (dcx st)) t),
                         dcx_numb := new_numb, dcx_weights := Some nw,
                         dcx_tab := Some work\<rparr>,
            buckets = vec'\<rparr>"
    by (auto simp: bnd_eq_Inr)
  then have "dcx_weights (dcx st') = Some nw" "dcx_tab (dcx st') = Some work" by simp_all
  with n cal bal ret show ?thesis by blast
qed

lemma fiber_okD:
  assumes "fiber_ok T ident w fibp"
  shows "\<exists>fib. fibp = Some fib \<and> length fib = unat w \<and> distinct fib \<and>
    (\<forall>k<length fib. unat (fib ! k) < length T \<and> T ! unat (fib ! k) = ident)"
  using assms by (cases fibp) (auto simp: fiber_ok_def list_all_length)

lemma ucast_pos_32:
  fixes p :: u64
  assumes "unat p < 2 ^ 32"
  shows "unat (ucast p :: u32) = unat p"
  using assms by (simp add: unsigned_ucast_eq take_bit_nat_eq_self)

lemma inc_minimal:
  assumes wf: "inc_wf st t target_pos new"
    and r: "inc_fsx32 e st t target_pos new = Inr (0, st')"
  shows "\<exists>ow nw tab'.
      dcx_weights (dcx st) = Some ow \<and> dcx_weights (dcx st') = Some nw \<and>
      dcx_tab (dcx st') = Some tab' \<and>
      length nw = length (buckets st) \<and>
      sum_list (map unat nw) = 2 ^ dcx_nums_bits (dcx st) \<and>
      length tab' = 2 ^ dcx_nums_bits (dcx st) \<and>
      diff_count (take (2 ^ dcx_nums_bits (dcx st)) t) tab' =
        sum_list (map (\<lambda>i. unat (ow ! inc_old_pos new (unat target_pos) i) - unat (nw ! i))
          (filter (\<lambda>i. new = None \<or> i \<noteq> unat target_pos) [0..<length (buckets st)])) \<and>
      (\<forall>s<2 ^ dcx_nums_bits (dcx st). tab' ! s \<noteq> t ! s \<longrightarrow>
         tab' ! s = ucast (b_id (buckets st ! unat target_pos)))"
proof -
  define nb where "nb = dcx_nums_bits (dcx st)"
  define vec where "vec = buckets st"
  define tp where "tp = unat target_pos"
  define n_old where "n_old = unat (dcx_numb (dcx st))"
  define n_new where "n_new = length vec"
  define T where "T = take (2 ^ nb) t"
  define new_numb where
    "new_numb = (if new \<noteq> None then dcx_numb (dcx st) + 1 else dcx_numb (dcx st))"
  define old where "old = inc_old_pos new tp"
  define c :: "nat \<Rightarrow> u32" where "c = (\<lambda>i. ucast (b_id (vec ! i)))"
  from wf obtain ow where ow: "dcx_weights (dcx st) = Some ow" "length ow = n_old"
      "sum_list (map unat ow) = 2 ^ nb"
    and fo: "\<forall>i<n_new. i \<noteq> tp \<longrightarrow> fiber_ok T (c i) (ow ! old i) (b_fib (vec ! i))"
    and nb: "nb \<le> 31" and lt: "2 ^ nb \<le> length t" and tp: "tp < n_new"
    and n: "n_new = (if new \<noteq> None then Suc n_old else n_old)"
    and di: "distinct (map (\<lambda>b. ucast (b_id b) :: u32) vec)"
    and caps: "caps_ok n_new (2 ^ nb) vec"
    unfolding inc_wf_def Let_def nb_def[symmetric] vec_def[symmetric] tp_def[symmetric]
      n_old_def[symmetric]
    by (cases "dcx_weights (dcx st)")
       (auto simp: n_new_def T_def old_def c_def list_all_length split: if_splits)
  from inc_fsx32_success[OF wf r] obtain nw tab' where
    nn: "unat new_numb = n_new"
    and cal: "calibrate32 new_numb (2 ^ nb) (map b_cap vec) (replicate (unat new_numb) 0) = Inr nw"
    and bal: "balance_inc e new_numb T (Some ow) nw (ucast target_pos) vec new = Inr (0, tab')"
    and res: "dcx_weights (dcx st') = Some nw" "dcx_tab (dcx st') = Some tab'"
    unfolding nb_def vec_def n_new_def T_def new_numb_def ow(1)[symmetric] by blast
  have p2: "unat (2 ^ nb :: u32) = 2 ^ nb" using nb by (simp add: unat_pow2_32)
  have nw: "length nw = n_new" "sum_list (map unat nw) = 2 ^ nb"
    using calibrate32_total[OF _ cal] caps by (simp_all add: nn p2)
  have n32: "n_new < 2 ^ 32" using unsigned_less[of new_numb, where 'a = nat] nn by simp
  have tpw: "unat (ucast target_pos :: u32) = tp"
    unfolding tp_def by (rule ucast_pos_32) (use tp n32 in \<open>simp add: tp_def\<close>)
  define fibs where "fibs = (\<lambda>i. the (b_fib (vec ! i)))"
  have fb: "b_fib (vec ! i) = Some (fibs i)" "length (fibs i) = unat (ow ! old i)"
      "distinct (fibs i)"
      "\<And>k. k < length (fibs i) \<Longrightarrow> unat (fibs i ! k) < length T \<and> T ! unat (fibs i ! k) = c i"
    if "i < n_new" "i \<noteq> tp" for i
  proof -
    from fo that have "fiber_ok T (c i) (ow ! old i) (b_fib (vec ! i))" by simp
    from fiber_okD[OF this]
    obtain fib where f: "b_fib (vec ! i) = Some fib" "length fib = unat (ow ! old i)"
        "distinct fib"
        "\<forall>k<length fib. unat (fib ! k) < length T \<and> T ! unat (fib ! k) = c i"
      by blast
    then have "fibs i = fib" by (simp add: fibs_def)
    with f show "b_fib (vec ! i) = Some (fibs i)" "length (fibs i) = unat (ow ! old i)"
      "distinct (fibs i)"
      "\<And>k. k < length (fibs i) \<Longrightarrow> unat (fibs i ! k) < length T \<and> T ! unat (fibs i ! k) = c i"
      by simp_all
  qed
  define S where "S = (\<lambda>i. (\<lambda>j. unat (fibs i ! (unat (nw ! i) + j))) `
                     {..<unat (ow ! old i) - unat (nw ! i)})"
  have fibs': "\<forall>i<n_new. i \<noteq> unat (ucast target_pos :: u32) \<longrightarrow>
      b_fib (vec ! i) = Some (fibs i) \<and>
      length (fibs i) = unat (ow ! inc_old_pos new (unat (ucast target_pos :: u32)) i)"
    using fb(1,2) by (simp add: tpw old_def)
  have tp': "unat (ucast target_pos :: u32) < n_new" using tp tpw by simp
  note bp = balance_inc_partial[OF bal ow(2) nw(1) n_new_def[symmetric] nn tp' n fibs',
      unfolded tpw, folded old_def]
  have le: "\<forall>i<n_new. i \<noteq> tp \<longrightarrow> unat (nw ! i) \<le> unat (ow ! old i)"
    and len: "length tab' = length T"
    and tab: "\<forall>s<length T. tab' ! s =
                (if \<exists>i<n_new. i \<noteq> tp \<and> s \<in> S i then c tp else T ! s)"
    unfolding S_def c_def by (fact bp)+
  define I where "I = {i. i < n_new \<and> i \<noteq> tp}"
  have cinj: "c i \<noteq> c j" if "i < n_new" "j < n_new" "i \<noteq> j" for i j
    using di that by (simp add: c_def n_new_def distinct_conv_nth)
  have "diff_count T tab' = (\<Sum>i\<in>I. card (S i))"
  proof (rule changed_count[where x = "c tp" and c = c])
    show "finite I" by (simp add: I_def)
    show "\<forall>s<length T. tab' ! s = (if \<exists>i\<in>I. s \<in> S i then c tp else T ! s)"
      using tab by (simp add: I_def Bex_def)
    show "\<forall>i\<in>I. \<forall>s\<in>S i. s < length T \<and> T ! s = c i"
    proof (intro ballI)
      fix i s assume i: "i \<in> I" and s: "s \<in> S i"
      then have i': "i < n_new" "i \<noteq> tp" by (simp_all add: I_def)
      from s obtain j where j: "j < unat (ow ! old i) - unat (nw ! i)"
          "s = unat (fibs i ! (unat (nw ! i) + j))" by (auto simp: S_def)
      then have "unat (nw ! i) + j < length (fibs i)" using fb(2)[OF i'] by simp
      from fb(4)[OF i' this] j(2) show "s < length T \<and> T ! s = c i" by simp
    qed
    show "\<forall>i\<in>I. c i \<noteq> c tp" using cinj tp by (simp add: I_def)
    show "inj_on c I" using cinj by (auto simp: inj_on_def I_def)
  qed
  also have "\<dots> = (\<Sum>i\<in>I. unat (ow ! old i) - unat (nw ! i))"
  proof (rule sum.cong[OF refl])
    fix i assume "i \<in> I"
    then have i': "i < n_new" "i \<noteq> tp" by (simp_all add: I_def)
    have "unat (nw ! i) + (unat (ow ! old i) - unat (nw ! i)) \<le> length (fibs i)"
      using le i' fb(2)[OF i'] by simp
    from card_fiber_segment[OF fb(3)[OF i'] this]
    show "card (S i) = unat (ow ! old i) - unat (nw ! i)" by (simp add: S_def)
  qed
  also have "\<dots> = sum_list (map (\<lambda>i. unat (ow ! old i) - unat (nw ! i))
                      (filter (\<lambda>i. new = None \<or> i \<noteq> tp) [0..<n_new]))"
  proof (cases "new = None")
    case False
    then have "set (filter (\<lambda>i. new = None \<or> i \<noteq> tp) [0..<n_new]) = I"
      by (auto simp: I_def)
    then show ?thesis by (simp add: sum_list_distinct_conv_sum_set)
  next
    case True
    then have eq: "n_old = n_new" "\<And>i. old i = i" using n by (simp_all add: old_def inc_old_pos_def)
    have A: "{..<n_new} - {tp} = I" by (auto simp: I_def)
    have "(\<Sum>i<n_new. unat (nw ! i)) = (\<Sum>i<n_new. unat (ow ! i))"
      using nw ow eq by (simp add: sum_list_nth)
    then have "unat (nw ! tp) + (\<Sum>i\<in>I. unat (nw ! i)) = unat (ow ! tp) + (\<Sum>i\<in>I. unat (ow ! i))"
      using tp by (simp add: sum.remove[where x = tp] A)
    moreover have "(\<Sum>i\<in>I. unat (nw ! i)) \<le> (\<Sum>i\<in>I. unat (ow ! i))"
      by (rule sum_mono) (use le eq in \<open>simp add: I_def\<close>)
    ultimately have z: "unat (ow ! old tp) - unat (nw ! tp) = 0" using eq by simp
    have "set (filter (\<lambda>i. new = None \<or> i \<noteq> tp) [0..<n_new]) = {..<n_new}"
      using True by auto
    then have "sum_list (map (\<lambda>i. unat (ow ! old i) - unat (nw ! i))
                      (filter (\<lambda>i. new = None \<or> i \<noteq> tp) [0..<n_new]))
          = (\<Sum>i<n_new. unat (ow ! old i) - unat (nw ! i))"
      by (simp add: sum_list_distinct_conv_sum_set)
    also have "\<dots> = (\<Sum>i\<in>I. unat (ow ! old i) - unat (nw ! i))"
      using tp z by (simp add: sum.remove[where x = tp] A)
    finally show ?thesis by simp
  qed
  finally have cnt: "diff_count T tab' =
      sum_list (map (\<lambda>i. unat (ow ! old i) - unat (nw ! i))
        (filter (\<lambda>i. new = None \<or> i \<noteq> tp) [0..<n_new]))" .
  have lT: "length T = 2 ^ nb" using lt by (simp add: T_def)
  have tgt: "\<forall>s<2 ^ nb. tab' ! s \<noteq> t ! s \<longrightarrow> tab' ! s = c tp"
  proof (intro allI impI)
    fix s assume s: "s < 2 ^ nb" "tab' ! s \<noteq> t ! s"
    then have "T ! s = t ! s" by (simp add: T_def)
    with tab s lT show "tab' ! s = c tp" by (cases "\<exists>i<n_new. i \<noteq> tp \<and> s \<in> S i") simp_all
  qed
  have len': "length tab' = 2 ^ nb" using len lT by simp
  show ?thesis
    unfolding nb_def[symmetric] vec_def[symmetric] tp_def[symmetric]
    using ow(1) res nw cnt len' tgt
    unfolding n_new_def T_def old_def c_def
    by (intro exI conjI)
qed

lemma shortage_loops:
  assumes len: "length ow = Suc n" "length nw = n"
    and tp: "tp \<le> n"
  shows "\<exists>sho. bnd (for_loop 0 tp (shortage_left (Some ow) nw) (replicate n 0))
                  (for_loop tp n (shortage_right True (Some ow) nw)) = Inr sho \<and>
           length sho = n \<and>
           (\<forall>i<n. sho ! i = nw ! i - ow ! dec_old_pos tp i)"
proof -
  let ?P1 = "\<lambda>k (x :: u32 list). length x = n \<and>
      (\<forall>i<n. x ! i = (if i < k then nw ! i - ow ! i else 0))"
  have "\<exists>x. for_loop 0 tp (shortage_left (Some ow) nw) (replicate n 0) = Inr x \<and> ?P1 tp x"
  proof (rule for_loop_total[where P = ?P1], goal_cases)
    case (3 k x)
    then show ?case using tp len
      by (auto simp: shortage_left_def rdp_def deref_def rd_def wr_def nth_list_update less_Suc_eq)
  qed simp_all
  then obtain x1 where x1: "for_loop 0 tp (shortage_left (Some ow) nw) (replicate n 0) = Inr x1"
    "?P1 tp x1" by blast
  let ?P2 = "\<lambda>k (x :: u32 list). length x = n \<and>
      (\<forall>i<n. x ! i = (if i < k then nw ! i - ow ! dec_old_pos tp i else 0))"
  have "\<exists>x. for_loop tp n (shortage_right True (Some ow) nw) x1 = Inr x \<and> ?P2 n x"
  proof (rule for_loop_total[where P = ?P2], goal_cases)
    case 1
    then show ?case using tp by simp
  next
    case 2
    then show ?case using x1(2) by (auto simp: dec_old_pos_def)
  next
    case (3 k x)
    then show ?case using len
      by (auto simp: shortage_right_def rdp_def deref_def rd_def wr_def nth_list_update
            less_Suc_eq dec_old_pos_def)
  qed
  then obtain x2 where x2: "for_loop tp n (shortage_right True (Some ow) nw) x1 = Inr x2"
    "?P2 n x2" by blast
  with x1(1) show ?thesis by auto
qed

lemma hand_out_partial:
  assumes h: "hand_out vec (Some vf) sho i (tab, off) = Inr (tab', off')"
    and i: "i < length sho" "i < length vec"
    and vf: "length vf < 2 ^ 32" "unat off \<le> length vf"
  shows "unat off' = unat off + unat (sho ! i)"
    and "unat off' \<le> length vf"
    and "length tab' = length tab"
    and "\<forall>s<length tab. tab' ! s =
           (if s \<in> (\<lambda>k. unat (vf ! k)) ` {unat off..<unat off + unat (sho ! i)}
            then ucast (b_id (vec ! i)) else tab ! s)"
proof -
  let ?body = "\<lambda>(j::nat) (tab, off_in_target :: u32).
       bnd (rdp (Some vf) (unat off_in_target)) (\<lambda>slot.
       bnd (idx2id vec i) (\<lambda>ident.
       bnd (wr tab (unat slot) (ucast ident)) (\<lambda>tab.
       Inr (tab, off_in_target + 1))))"
  let ?img = "\<lambda>j. (\<lambda>k. unat (vf ! k)) ` {unat off..<unat off + j}"
  let ?P = "\<lambda>j s. case s of (t, ofs) \<Rightarrow> length t = length tab \<and> unat ofs = unat off + j \<and>
      unat off + j \<le> length vf \<and>
      (\<forall>s<length tab. t ! s = (if s \<in> ?img j then ucast (b_id (vec ! i)) else tab ! s))"
  from h have loop: "for_loop 0 (unat (sho ! i)) ?body (tab, off) = Inr (tab', off')"
    using i(1) by (simp add: hand_out_def rd_def)
  have P: "?P (unat (sho ! i)) (tab', off')"
  proof (rule for_loop_partial[OF loop, where P = ?P], goal_cases)
    case 1
    then show ?case by simp
  next
    case 2
    then show ?case using vf by simp
  next
    case (3 j s s')
    obtain t ofs where s: "s = (t, ofs)" by (cases s)
    obtain t' ofs' where s': "s' = (t', ofs')" by (cases s')
    from 3(3) s have inv: "length t = length tab" "unat ofs = unat off + j"
      "\<forall>s<length tab. t ! s = (if s \<in> ?img j then ucast (b_id (vec ! i)) else tab ! s)"
      by simp_all
    from 3(4) s s' obtain slot ident where
      b: "rdp (Some vf) (unat ofs) = Inr slot" "idx2id vec i = Inr ident"
         "wr t (unat slot) (ucast ident) = Inr t'" "ofs' = ofs + 1"
      by (auto simp: bnd_eq_Inr)
    from b(1) have k: "unat ofs < length vf" "slot = vf ! unat ofs"
      by (auto simp: rdp_def deref_def rd_def split: if_splits)
    from b(2) have id: "ident = b_id (vec ! i)"
      by (auto simp: idx2id_def rd_def bnd_eq_Inr split: if_splits)
    from b(3) have w: "unat slot < length t" "t' = t[unat slot := ucast ident]"
      by (auto simp: wr_def split: if_splits)
    have "unat ofs + 1 < 2 ^ 32" using k(1) vf(1) by simp
    then have o': "unat ofs' = unat off + Suc j"
      using inv(2) by (simp add: b(4) unat_word_ariths)
    have "{unat off..<unat off + Suc j} = insert (unat off + j) {unat off..<unat off + j}"
      by auto
    then have "?img (Suc j) = insert (unat slot) (?img j)"
      by (simp add: k(2) inv(2))
    with inv w id o' k(1) show ?case unfolding s'
      by (auto simp: nth_list_update)
  qed
  then show "unat off' = unat off + unat (sho ! i)" and "length tab' = length tab"
    and "\<forall>s<length tab. tab' ! s =
           (if s \<in> (\<lambda>k. unat (vf ! k)) ` {unat off..<unat off + unat (sho ! i)}
            then ucast (b_id (vec ! i)) else tab ! s)"
    by simp_all
  with P show "unat off' \<le> length vf" by simp
qed

lemma sum_dec_old_pos:
  fixes f :: "nat \<Rightarrow> nat"
  shows "tp \<le> n \<Longrightarrow> (\<Sum>j<Suc n. f j) = f tp + (\<Sum>i<n. f (dec_old_pos tp i))"
proof (induction n)
  case 0
  then show ?case by simp
next
  case (Suc n)
  show ?case
  proof (cases "tp = Suc n")
    case True
    then show ?thesis by (simp add: dec_old_pos_def)
  next
    case False
    then have "tp \<le> n" using Suc.prems by simp
    from Suc.IH[OF this] this show ?thesis by (simp add: dec_old_pos_def)
  qed
qed

lemma balance_dec_partial:
  assumes b: "balance_dec e new_numb work (Some ow) nw tpw vec (Some victim) = Inr (0, tab')"
    and len: "length ow = Suc n" "length nw = n" "length vec = n" "unat new_numb = n"
    and tp: "unat tpw \<le> n"
    and vf: "b_fib victim = Some vf" "length vf < 2 ^ 32"
  defines "handed \<equiv> \<Sum>i<n. unat (nw ! i - ow ! dec_old_pos (unat tpw) i)"
  shows "handed \<le> length vf"
    and "length tab' = length work"
    and "\<forall>s<length work.
           (s \<in> (\<lambda>k. unat (vf ! k)) ` {..<handed} \<longrightarrow>
              (\<exists>i<n. tab' ! s = ucast (b_id (vec ! i)))) \<and>
           (s \<notin> (\<lambda>k. unat (vf ! k)) ` {..<handed} \<longrightarrow> tab' ! s = work ! s)"
proof -
  define tp where "tp = unat tpw"
  define c :: "nat \<Rightarrow> u32" where "c = (\<lambda>i. ucast (b_id (vec ! i)))"
  define img where "img = (\<lambda>A. (\<lambda>k. unat (vf ! k)) ` A)"
  from shortage_loops[OF len(1,2) tp[folded tp_def]] obtain sho where
    sho: "bnd (for_loop 0 tp (shortage_left (Some ow) nw) (replicate n 0))
            (for_loop tp n (shortage_right True (Some ow) nw)) = Inr sho"
      "length sho = n"
      "\<forall>i<n. sho ! i = nw ! i - ow ! dec_old_pos tp i"
    by blast
  from sho(1) obtain sho1 where
    s1: "for_loop 0 tp (shortage_left (Some ow) nw) (replicate n 0) = Inr sho1"
    and s2: "for_loop tp n (shortage_right True (Some ow) nw) sho1 = Inr sho"
    by (auto simp: bnd_eq_Inr)
  have tr: "(Some victim \<noteq> None) = True" by simp
  have al: "fsx32_alloc e n = Some (replicate n 0)"
    using b
    by (cases "alloc_ok e n")
       (simp_all add: balance_dec_def balance_dec_body_def deref_def fsx32_alloc_def len(4))
  let ?right = "\<lambda>i s. bnd (rdp (Some ow) (i + 1)) (\<lambda>ow. bnd (touch_fiber vec i ow s)
                  (\<lambda>s. hand_out vec (Some vf) sho i s))"
  have "bnd (for_loop 0 tp (hand_out vec (Some vf) sho) (work, 0))
          (\<lambda>s. bnd (for_loop tp n ?right s) (\<lambda>(tab, off_in_target). Inr (0, tab)))
        = Inr (0::int, tab')"
    using b unfolding balance_dec_def balance_dec_body_def deref_def Let_def len(4)
      tp_def[symmetric] al tr fib_of_def vf(1)
    by (simp only: option.case s1 s2 bnd_Inr prod.case vf(1))
  then obtain st1 off' where
    l: "for_loop 0 tp (hand_out vec (Some vf) sho) (work, 0) = Inr st1"
    and r: "for_loop tp n ?right st1 = Inr (tab', off')"
    by (auto simp: bnd_eq_Inr split: prod.splits)
  let ?Q = "\<lambda>k s. case s of (t, ofs) \<Rightarrow> length t = length work \<and>
      unat ofs = (\<Sum>i<k. unat (sho ! i)) \<and> unat ofs \<le> length vf \<and>
      (\<forall>s<length work. (s \<in> img {..<unat ofs} \<longrightarrow> (\<exists>i<k. t ! s = c i)) \<and>
                        (s \<notin> img {..<unat ofs} \<longrightarrow> t ! s = work ! s))"
  have step: "?Q (Suc k) s'" if "hand_out vec (Some vf) sho k s = Inr s'" "k < n" "?Q k s"
    for k s s'
  proof -
    obtain t ofs where s: "s = (t, ofs)" by (cases s)
    obtain t' ofs' where s': "s' = (t', ofs')" by (cases s')
    from that(3) s have inv: "length t = length work" "unat ofs = (\<Sum>i<k. unat (sho ! i))"
      "unat ofs \<le> length vf"
      "\<forall>s<length work. (s \<in> img {..<unat ofs} \<longrightarrow> (\<exists>i<k. t ! s = c i)) \<and>
                        (s \<notin> img {..<unat ofs} \<longrightarrow> t ! s = work ! s)"
      by simp_all
    have k: "k < length sho" "k < length vec" using that(2) sho(2) len by simp_all
    note ho = hand_out_partial[OF that(1)[unfolded s s'] k vf(2) inv(3)]
    have u: "img {..<unat ofs'} = img {..<unat ofs} \<union> img {unat ofs..<unat ofs + unat (sho ! k)}"
      unfolding img_def ho(1) image_Un[symmetric]
      by (rule arg_cong[where f = "\<lambda>A. (\<lambda>k. unat (vf ! k)) ` A"]) auto
    have tab: "(s \<in> img {..<unat ofs'} \<longrightarrow> (\<exists>i<Suc k. t' ! s = c i)) \<and>
               (s \<notin> img {..<unat ofs'} \<longrightarrow> t' ! s = work ! s)" if "s < length work" for s
    proof (cases "s \<in> img {unat ofs..<unat ofs + unat (sho ! k)}")
      case True
      then have "t' ! s = c k" using ho(4) that inv(1) by (simp add: img_def c_def)
      then show ?thesis using True u by auto
    next
      case False
      then have "t' ! s = t ! s" using ho(4) that inv(1) by (simp add: img_def)
      then show ?thesis using False u inv(4) that by (auto simp: less_Suc_eq)
    qed
    show ?thesis unfolding s' using ho(1,2,3) inv(1,2) tab by simp
  qed
  have Q1: "?Q tp st1"
  proof (rule for_loop_partial[OF l, where P = ?Q], goal_cases)
    case (3 k t t')
    then show ?case using step[of k t t'] tp by (simp add: tp_def)
  qed (simp_all add: img_def)
  have Q2: "?Q n (tab', off')"
  proof (rule for_loop_partial[OF r, where P = ?Q], goal_cases)
    case 1
    then show ?case using tp by (simp add: tp_def)
  next
    case 2
    then show ?case using Q1 .
  next
    case (3 k t t')
    from 3(4) obtain t1 owk where "touch_fiber vec k owk t = Inr t1"
      "hand_out vec (Some vf) sho k t1 = Inr t'"
      by (auto simp: bnd_eq_Inr)
    with touch_fiber_partial have "hand_out vec (Some vf) sho k t = Inr t'" by metis
    from step[OF this 3(2,3)] show ?case .
  qed
  have tot: "unat off' = handed"
    using Q2 sho(3) by (simp add: handed_def tp_def)
  show "handed \<le> length vf" using Q2 tot by simp
  show "length tab' = length work" using Q2 by simp
  show "\<forall>s<length work.
           (s \<in> (\<lambda>k. unat (vf ! k)) ` {..<handed} \<longrightarrow>
              (\<exists>i<n. tab' ! s = ucast (b_id (vec ! i)))) \<and>
           (s \<notin> (\<lambda>k. unat (vf ! k)) ` {..<handed} \<longrightarrow> tab' ! s = work ! s)"
    using Q2 unfolding tot[symmetric] img_def c_def by simp
qed

lemma bnd_ret_zero:
  assumes "bnd m (\<lambda>ret. if ret \<noteq> 0 then Inr (ret, a ret) else g) = Inr (0 :: int, y)"
  shows "g = Inr (0, y)"
proof -
  from assms obtain ret where "(if ret \<noteq> 0 then Inr (ret, a ret) else g) = Inr (0, y)"
    by (auto simp: bnd_eq_Inr)
  then show ?thesis by (cases "ret = 0") simp_all
qed

lemma dec_fsx32_success:
  assumes wf: "dec_wf st t target_pos victim"
    and r: "dec_fsx32 e st t target_pos (Some victim) = Inr (0, st', rm)"
  defines "new_numb \<equiv> dcx_numb (dcx st) - 1"
  shows "\<exists>nw tab'.
      unat new_numb = length (buckets st) \<and>
      calibrate32 new_numb (2 ^ dcx_nums_bits (dcx st)) (map b_cap (buckets st))
        (replicate (unat new_numb) 0) = Inr nw \<and>
      balance_dec e new_numb (take (2 ^ dcx_nums_bits (dcx st)) t) (dcx_weights (dcx st)) nw
        (ucast target_pos) (buckets st) (Some victim) = Inr (0, tab') \<and>
      dcx_weights (dcx st') = Some nw \<and> dcx_tab (dcx st') = Some tab'"
proof -
  have n: "unat new_numb = length (buckets st)"
  proof -
    have "unat (dcx_numb (dcx st)) = Suc (length (buckets st))"
      using wf by (simp add: dec_wf_def Let_def)
    moreover from this have "dcx_numb (dcx st) \<noteq> 0" by auto
    ultimately show ?thesis by (simp add: new_numb_def unat_minus_one)
  qed
  have t: "\<not> length t < 2 ^ dcx_nums_bits (dcx st)" using wf by (simp add: dec_wf_def Let_def)
  have tr: "(Some victim \<noteq> None) = True" by simp
  note r' = r[unfolded dec_fsx32_def Let_def tr if_True new_numb_def[symmetric]]
  note r1 = bnd_ret_zero[OF r']
  have a1: "fsx32_alloc e (unat new_numb) = Some (replicate (unat new_numb) 0)"
  proof (rule ccontr)
    assume "fsx32_alloc e (unat new_numb) \<noteq> Some (replicate (unat new_numb) 0)"
    then have "fsx32_alloc e (unat new_numb) = None" by (simp add: fsx32_alloc_def split: if_splits)
    with r1 show False by simp
  qed
  note r2 = r1[unfolded a1 option.case]
  have a2: "clone_systab e (dcx st) t =
              Inr (0, dcx st\<lparr>dcx_tab := Some (take (2 ^ dcx_nums_bits (dcx st)) t)\<rparr>)"
  proof (rule ccontr)
    assume "clone_systab e (dcx st) t \<noteq>
              Inr (0, dcx st\<lparr>dcx_tab := Some (take (2 ^ dcx_nums_bits (dcx st)) t)\<rparr>)"
    then have "clone_systab e (dcx st) t = Inr (- ENOMEM, dcx st\<lparr>dcx_tab := None\<rparr>)"
      using t by (simp add: clone_systab_def split: option.splits)
    with r2 show False by simp
  qed
  note r3 = r2[unfolded a2 bnd_Inr prod.case]
  from r3 obtain nw ret work where
    cal: "calibrate32 new_numb (2 ^ dcx_nums_bits (dcx st)) (map b_cap (buckets st))
            (replicate (unat new_numb) 0) = Inr nw"
    and bal: "balance_dec e new_numb (take (2 ^ dcx_nums_bits (dcx st)) t)
                (dcx_weights (dcx st)) nw (ucast target_pos) (buckets st) (Some victim)
              = Inr (ret, work)"
    and rest: "(if ret \<noteq> 0
        then Inr (ret, st\<lparr>dcx := free_cloned_systab
               (dcx st\<lparr>dcx_tab := Some (take (2 ^ dcx_nums_bits (dcx st)) t)\<rparr>)\<rparr>,
               Some victim)
        else bnd (release_fibers (unat new_numb) (buckets st)) (\<lambda>vec.
             bnd (deref (Some victim)) (\<lambda>victim.
               Inr (0, \<lparr>dcx = dcx st\<lparr>dcx_tab := Some (take (2 ^ dcx_nums_bits (dcx st)) t),
                                     dcx_numb := new_numb, dcx_weights := Some nw,
                                     dcx_tab := Some work\<rparr>,
                        buckets = vec\<rparr>,
                    Some (victim\<lparr>b_fib := None\<rparr>))))) = Inr (0, st', rm)"
    by (simp add: deref_def bnd_eq_Inr) blast
  have ret: "ret = 0" using rest by (cases "ret = 0") simp_all
  from rest ret obtain vec' where
    "st' = \<lparr>dcx = dcx st\<lparr>dcx_tab := Some (take (2 ^ dcx_nums_bits (dcx st)) t),
                         dcx_numb := new_numb, dcx_weights := Some nw,
                         dcx_tab := Some work\<rparr>,
            buckets = vec'\<rparr>"
    by (auto simp: bnd_eq_Inr deref_def)
  then have "dcx_weights (dcx st') = Some nw" "dcx_tab (dcx st') = Some work" by simp_all
  with n cal bal ret show ?thesis by blast
qed

lemma dec_minimal:
  assumes wf: "dec_wf st t target_pos victim"
    and r: "dec_fsx32 e st t target_pos (Some victim) = Inr (0, st', rm)"
  shows "\<exists>ow nw tab'.
      dcx_weights (dcx st) = Some ow \<and> dcx_weights (dcx st') = Some nw \<and>
      dcx_tab (dcx st') = Some tab' \<and>
      length nw = length (buckets st) \<and>
      sum_list (map unat nw) = 2 ^ dcx_nums_bits (dcx st) \<and>
      length tab' = 2 ^ dcx_nums_bits (dcx st) \<and>
      diff_count (take (2 ^ dcx_nums_bits (dcx st)) t) tab' =
        sum_list (map (\<lambda>i. unat (ow ! dec_old_pos (unat target_pos) i) - unat (nw ! i))
          [0..<length (buckets st)]) + unat (ow ! unat target_pos) \<and>
      (\<forall>s<2 ^ dcx_nums_bits (dcx st). tab' ! s \<noteq> t ! s \<longrightarrow> t ! s = ucast (b_id victim))"
proof -
  define nb where "nb = dcx_nums_bits (dcx st)"
  define vec where "vec = buckets st"
  define tp where "tp = unat target_pos"
  define n where "n = length vec"
  define T where "T = take (2 ^ nb) t"
  define new_numb where "new_numb = dcx_numb (dcx st) - 1"
  define old where "old = dec_old_pos tp"
  define c :: "nat \<Rightarrow> u32" where "c = (\<lambda>i. ucast (b_id (vec ! i)))"
  define vid :: u32 where "vid = ucast (b_id victim)"
  note wf' = wf[unfolded dec_wf_def Let_def, folded nb_def vec_def tp_def, folded n_def T_def vid_def]
  from wf' have nb: "nb \<le> 31" and lt: "2 ^ nb \<le> length t"
    and nold: "unat (dcx_numb (dcx st)) = Suc n"
    and di: "distinct (map (\<lambda>b. ucast (b_id b) :: u32) (victim # vec))"
    and caps: "caps_ok n (2 ^ nb) vec"
    by (elim conjE, simp)+
  from wf' nold have tp: "tp < Suc n" by (elim conjE) simp
  from wf' have "case dcx_weights (dcx st) of None \<Rightarrow> False
      | Some ow \<Rightarrow> length ow = unat (dcx_numb (dcx st)) \<and> sum_list (map unat ow) = 2 ^ nb \<and>
          fiber_ok T vid (ow ! tp) (b_fib victim)"
    by (elim conjE)
  then obtain ow where ow: "dcx_weights (dcx st) = Some ow" "length ow = Suc n"
      "sum_list (map unat ow) = 2 ^ nb"
    and fo: "fiber_ok T vid (ow ! tp) (b_fib victim)"
    using nold by (cases "dcx_weights (dcx st)") simp_all
  from fiber_okD[OF fo] obtain vf where vf: "b_fib victim = Some vf"
      "length vf = unat (ow ! tp)" "distinct vf"
      "\<forall>k<length vf. unat (vf ! k) < length T \<and> T ! unat (vf ! k) = vid"
    by blast
  have vf32: "length vf < 2 ^ 32"
    using unsigned_less[of "ow ! tp", where 'a = nat] vf(2) by simp
  from dec_fsx32_success[OF wf r] obtain nw tab' where
    nn: "unat new_numb = n"
    and cal: "calibrate32 new_numb (2 ^ nb) (map b_cap vec) (replicate (unat new_numb) 0) = Inr nw"
    and bal: "balance_dec e new_numb T (Some ow) nw (ucast target_pos) vec (Some victim)
              = Inr (0, tab')"
    and res: "dcx_weights (dcx st') = Some nw" "dcx_tab (dcx st') = Some tab'"
    unfolding nb_def vec_def n_def T_def new_numb_def ow(1)[symmetric] by blast
  have p2: "unat (2 ^ nb :: u32) = 2 ^ nb" using nb by (simp add: unat_pow2_32)
  have nw: "length nw = n" "sum_list (map unat nw) = 2 ^ nb"
    using calibrate32_total[OF _ cal] caps by (simp_all add: nn p2)
  have n32: "Suc n < 2 ^ 32"
    using unsigned_less[of "dcx_numb (dcx st)", where 'a = nat] nold by simp
  have tpw: "unat (ucast target_pos :: u32) = tp"
    unfolding tp_def by (rule ucast_pos_32) (use tp n32 in \<open>simp add: tp_def\<close>)
  have tp': "unat (ucast target_pos :: u32) \<le> n" using tp tpw by simp
  define handed where "handed = (\<Sum>i<n. unat (nw ! i - ow ! old i))"
  define img where "img = (\<lambda>k. unat (vf ! k)) ` {..<handed}"
  note bp = balance_dec_partial[OF bal ow(2) nw(1) n_def[symmetric] nn tp' vf(1) vf32,
      unfolded tpw, folded old_def, folded handed_def, folded img_def]
  have hl: "handed \<le> length vf" and len: "length tab' = length T"
    and tab: "\<forall>s<length T. (s \<in> img \<longrightarrow> (\<exists>i<n. tab' ! s = c i)) \<and>
                            (s \<notin> img \<longrightarrow> tab' ! s = T ! s)"
    unfolding c_def by (fact bp)+
  have sums: "(\<Sum>j<Suc n. unat (ow ! j)) = 2 ^ nb" "(\<Sum>i<n. unat (nw ! i)) = 2 ^ nb"
    using ow(2,3) nw by (simp_all add: sum_list_nth)
  have split: "(\<Sum>j<Suc n. unat (ow ! j)) = unat (ow ! tp) + (\<Sum>i<n. unat (ow ! old i))"
    unfolding old_def by (rule sum_dec_old_pos) (use tp in simp)
  have pw: "(2::nat) ^ nb \<le> 2 ^ 31" using nb by (intro power_increasing) simp_all
  have le: "unat (ow ! old i) \<le> unat (nw ! i)" if "i < n" for i
  proof (rule ccontr)
    assume "\<not> unat (ow ! old i) \<le> unat (nw ! i)"
    then have "unat (nw ! i - ow ! old i) = unat (nw ! i) + 2 ^ 32 - unat (ow ! old i)"
      by (simp add: unat_sub_if')
    moreover have "unat (nw ! i - ow ! old i) \<le> handed"
      unfolding handed_def using that by (intro member_le_sum) simp_all
    moreover have "unat (ow ! old i) \<le> (\<Sum>i<n. unat (ow ! old i))"
      using that by (intro member_le_sum) simp_all
    ultimately show False using hl vf(2) sums(1) split pw by simp
  qed
  have hd: "handed = unat (ow ! tp)"
  proof -
    have "handed = (\<Sum>i<n. unat (nw ! i) - unat (ow ! old i))"
      unfolding handed_def by (rule sum.cong[OF refl]) (use le in \<open>simp add: unat_sub_if'\<close>)
    also have "\<dots> = (\<Sum>i<n. unat (nw ! i)) - (\<Sum>i<n. unat (ow ! old i))"
      by (rule sum_subtractf_nat) (use le in simp)
    finally show ?thesis using sums split by simp
  qed
  have zero: "sum_list (map (\<lambda>i. unat (ow ! old i) - unat (nw ! i)) [0..<n]) = 0"
    using le by (simp add: sum_list_eq_0_iff)
  have cne: "c i \<noteq> vid" if "i < n" for i
  proof -
    have "vec ! i \<in> set vec" using that by (simp add: n_def)
    then have "c i \<in> (\<lambda>b. ucast (b_id b)) ` set vec" unfolding c_def by (rule imageI)
    moreover have "vid \<notin> (\<lambda>b. ucast (b_id b) :: u32) ` set vec" using di by (simp add: vid_def)
    ultimately show ?thesis by metis
  qed
  have inT: "s < length T \<and> T ! s = vid" if "s \<in> img" for s
  proof -
    from that obtain k where "k < handed" "s = unat (vf ! k)" by (auto simp: img_def)
    with hl vf(4) show ?thesis by simp
  qed
  have ch: "{s. s < length T \<and> T ! s \<noteq> tab' ! s} = img"
  proof (intro equalityI subsetI)
    fix s assume "s \<in> {s. s < length T \<and> T ! s \<noteq> tab' ! s}"
    then show "s \<in> img" using tab by auto
  next
    fix s assume s: "s \<in> img"
    with inT have a: "s < length T" "T ! s = vid" by simp_all
    with tab s obtain i where i: "i < n" "tab' ! s = c i" by blast
    from cne[OF i(1)] i(2) a(2) have "T ! s \<noteq> tab' ! s" by simp
    with a(1) show "s \<in> {s. s < length T \<and> T ! s \<noteq> tab' ! s}" by simp
  qed
  have "card img = handed"
    using card_fiber_segment[OF vf(3), of 0 handed] hl by (simp add: img_def)
  then have cnt: "diff_count T tab' =
      sum_list (map (\<lambda>i. unat (ow ! old i) - unat (nw ! i)) [0..<n]) + unat (ow ! tp)"
    using ch hd zero by (simp add: diff_count_card)
  have lT: "length T = 2 ^ nb" using lt by (simp add: T_def)
  have len': "length tab' = 2 ^ nb" using len lT by simp
  have src: "\<forall>s<2 ^ nb. tab' ! s \<noteq> t ! s \<longrightarrow> t ! s = vid"
  proof (intro allI impI)
    fix s assume s: "s < 2 ^ nb" "tab' ! s \<noteq> t ! s"
    then have e: "T ! s = t ! s" by (simp add: T_def)
    with tab s lT have "s \<in> img" by auto
    with inT e show "t ! s = vid" by simp
  qed
  show ?thesis
    unfolding nb_def[symmetric] vec_def[symmetric] tp_def[symmetric]
    using ow(1) res nw cnt len' src
    unfolding n_def T_def old_def vid_def
    by (intro exI conjI)
qed

lemma dec_null_never_succeeds: "dec_fsx32 e st t target_pos None \<noteq> Inr (0, st', rm)"
proof
  assume r: "dec_fsx32 e st t target_pos None = Inr (0, st', rm)"
  have fl: "(None \<noteq> (None :: bucket option)) = False" by simp
  have bd: "balance_dec e nn work ow nw tpw vec None = Inl NullPointer" for nn work ow nw tpw vec
    by (simp add: balance_dec_def deref_def)
  note r1 = bnd_ret_zero[OF r[unfolded dec_fsx32_def Let_def fl if_False bd bnd_Inl]]
  show False
  proof (cases "fsx32_alloc e (unat (dcx_numb (dcx st)))")
    case None
    with r1 show False by simp
  next
    case (Some w)
    with r1 show False
      by (auto simp: bnd_eq_Inr split: prod.splits if_splits)
  qed
qed

text \<open>
  Claim C4. Take a successful \<open>inc\<close> or \<open>dec\<close> (return code 0, no fault) on a
  well-formed context. The number of slots of the table passed in whose entry differs
  in the new table is the sum, over the surviving bricks, of how far the old weight of
  a brick exceeds its new weight (all bricks but the added one for \<open>inc\<close>; for \<open>dec\<close>
  that sum is taken over the bricks that stay and the whole old weight of the removed
  brick is added). No other slot changes: a slot changed by \<open>inc\<close> now holds the id of
  the brick at \<open>target_pos\<close>, a slot changed by \<open>dec\<close> held the id of the removed
  brick. The new weights sum to the number of slots. A \<open>dec\<close> that is passed no bucket
  never returns 0, so every successful \<open>dec\<close> removes a brick.
\<close>

theorem reconfiguration_minimal:
  "(inc_wf st t target_pos new \<and> inc_fsx32 e st t target_pos new = Inr (0, st') \<longrightarrow>
      (\<exists>ow nw tab'.
         dcx_weights (dcx st) = Some ow \<and> dcx_weights (dcx st') = Some nw \<and>
         dcx_tab (dcx st') = Some tab' \<and>
         length nw = length (buckets st) \<and>
         sum_list (map unat nw) = 2 ^ dcx_nums_bits (dcx st) \<and>
         length tab' = 2 ^ dcx_nums_bits (dcx st) \<and>
         diff_count (take (2 ^ dcx_nums_bits (dcx st)) t) tab' =
           sum_list (map (\<lambda>i. unat (ow ! inc_old_pos new (unat target_pos) i) - unat (nw ! i))
             (filter (\<lambda>i. new = None \<or> i \<noteq> unat target_pos) [0..<length (buckets st)])) \<and>
         (\<forall>s<2 ^ dcx_nums_bits (dcx st). tab' ! s \<noteq> t ! s \<longrightarrow>
            tab' ! s = ucast (b_id (buckets st ! unat target_pos))))) \<and>
   (dec_wf st t target_pos victim \<and>
    dec_fsx32 e st t target_pos (Some victim) = Inr (0, st', rm) \<longrightarrow>
      (\<exists>ow nw tab'.
         dcx_weights (dcx st) = Some ow \<and> dcx_weights (dcx st') = Some nw \<and>
         dcx_tab (dcx st') = Some tab' \<and>
         length nw = length (buckets st) \<and>
         sum_list (map unat nw) = 2 ^ dcx_nums_bits (dcx st) \<and>
         length tab' = 2 ^ dcx_nums_bits (dcx st) \<and>
         diff_count (take (2 ^ dcx_nums_bits (dcx st)) t) tab' =
           sum_list (map (\<lambda>i. unat (ow ! dec_old_pos (unat target_pos) i) - unat (nw ! i))
             [0..<length (buckets st)]) + unat (ow ! unat target_pos) \<and>
         (\<forall>s<2 ^ dcx_nums_bits (dcx st). tab' ! s \<noteq> t ! s \<longrightarrow>
            t ! s = ucast (b_id victim)))) \<and>
   dec_fsx32 e st t target_pos None \<noteq> Inr (0, st', rm)"
proof (intro conjI impI)
  assume "inc_wf st t target_pos new \<and> inc_fsx32 e st t target_pos new = Inr (0, st')"
  then show "\<exists>ow nw tab'.
         dcx_weights (dcx st) = Some ow \<and> dcx_weights (dcx st') = Some nw \<and>
         dcx_tab (dcx st') = Some tab' \<and>
         length nw = length (buckets st) \<and>
         sum_list (map unat nw) = 2 ^ dcx_nums_bits (dcx st) \<and>
         length tab' = 2 ^ dcx_nums_bits (dcx st) \<and>
         diff_count (take (2 ^ dcx_nums_bits (dcx st)) t) tab' =
           sum_list (map (\<lambda>i. unat (ow ! inc_old_pos new (unat target_pos) i) - unat (nw ! i))
             (filter (\<lambda>i. new = None \<or> i \<noteq> unat target_pos) [0..<length (buckets st)])) \<and>
         (\<forall>s<2 ^ dcx_nums_bits (dcx st). tab' ! s \<noteq> t ! s \<longrightarrow>
            tab' ! s = ucast (b_id (buckets st ! unat target_pos)))"
    using inc_minimal by blast
next
  assume "dec_wf st t target_pos victim \<and>
    dec_fsx32 e st t target_pos (Some victim) = Inr (0, st', rm)"
  then show "\<exists>ow nw tab'.
         dcx_weights (dcx st) = Some ow \<and> dcx_weights (dcx st') = Some nw \<and>
         dcx_tab (dcx st') = Some tab' \<and>
         length nw = length (buckets st) \<and>
         sum_list (map unat nw) = 2 ^ dcx_nums_bits (dcx st) \<and>
         length tab' = 2 ^ dcx_nums_bits (dcx st) \<and>
         diff_count (take (2 ^ dcx_nums_bits (dcx st)) t) tab' =
           sum_list (map (\<lambda>i. unat (ow ! dec_old_pos (unat target_pos) i) - unat (nw ! i))
             [0..<length (buckets st)]) + unat (ow ! unat target_pos) \<and>
         (\<forall>s<2 ^ dcx_nums_bits (dcx st). tab' ! s \<noteq> t ! s \<longrightarrow>
            t ! s = ucast (b_id victim))"
    using dec_minimal by blast
next
  show "dec_fsx32 e st t target_pos None \<noteq> Inr (0, st', rm)"
    by (rule dec_null_never_succeeds)
qed

theorem reconfiguration_minimal_witness:
  "inc_wf
     \<lparr>dcx = \<lparr>dcx_numb = 2, dcx_nums_bits = 3, dcx_weights = Some [4, 4], dcx_tab = None\<rparr>,
      buckets = [\<lparr>b_id = 10, b_cap = 1, b_fib = Some [0, 1, 2, 3], b_fib_len = 4\<rparr>,
                 \<lparr>b_id = 20, b_cap = 1, b_fib = Some [4, 5, 6, 7], b_fib_len = 4\<rparr>,
                 \<lparr>b_id = 30, b_cap = 1, b_fib = None, b_fib_len = 0\<rparr>]\<rparr>
     [10, 10, 10, 10, 20, 20, 20, 20] 2
     (Some \<lparr>b_id = 30, b_cap = 1, b_fib = None, b_fib_len = 0\<rparr>) \<and>
   inc_fsx32 \<lparr>alloc_ok = (\<lambda>n. True), space_occupied = 0\<rparr>
     \<lparr>dcx = \<lparr>dcx_numb = 2, dcx_nums_bits = 3, dcx_weights = Some [4, 4], dcx_tab = None\<rparr>,
      buckets = [\<lparr>b_id = 10, b_cap = 1, b_fib = Some [0, 1, 2, 3], b_fib_len = 4\<rparr>,
                 \<lparr>b_id = 20, b_cap = 1, b_fib = Some [4, 5, 6, 7], b_fib_len = 4\<rparr>,
                 \<lparr>b_id = 30, b_cap = 1, b_fib = None, b_fib_len = 0\<rparr>]\<rparr>
     [10, 10, 10, 10, 20, 20, 20, 20] 2
     (Some \<lparr>b_id = 30, b_cap = 1, b_fib = None, b_fib_len = 0\<rparr>)
   = Inr (0,
     \<lparr>dcx = \<lparr>dcx_numb = 3, dcx_nums_bits = 3, dcx_weights = Some [3, 3, 2],
              dcx_tab = Some [10, 10, 10, 30, 20, 20, 20, 30]\<rparr>,
      buckets = [\<lparr>b_id = 10, b_cap = 1, b_fib = None, b_fib_len = 4\<rparr>,
                 \<lparr>b_id = 20, b_cap = 1, b_fib = None, b_fib_len = 4\<rparr>,
                 \<lparr>b_id = 30, b_cap = 1, b_fib = None, b_fib_len = 0\<rparr>]\<rparr>) \<and>
   diff_count (take (2 ^ 3) [10, 10, 10, 10, 20, 20, 20, 20 :: u32])
     [10, 10, 10, 30, 20, 20, 20, 30] = 2 \<and>
   dec_wf
     \<lparr>dcx = \<lparr>dcx_numb = 3, dcx_nums_bits = 3, dcx_weights = Some [3, 3, 2], dcx_tab = None\<rparr>,
      buckets = [\<lparr>b_id = 10, b_cap = 1, b_fib = Some [0, 1, 2], b_fib_len = 3\<rparr>,
                 \<lparr>b_id = 30, b_cap = 1, b_fib = Some [3, 7], b_fib_len = 2\<rparr>]\<rparr>
     [10, 10, 10, 30, 20, 20, 20, 30] 1
     \<lparr>b_id = 20, b_cap = 1, b_fib = Some [4, 5, 6], b_fib_len = 3\<rparr> \<and>
   dec_fsx32 \<lparr>alloc_ok = (\<lambda>n. True), space_occupied = 0\<rparr>
     \<lparr>dcx = \<lparr>dcx_numb = 3, dcx_nums_bits = 3, dcx_weights = Some [3, 3, 2], dcx_tab = None\<rparr>,
      buckets = [\<lparr>b_id = 10, b_cap = 1, b_fib = Some [0, 1, 2], b_fib_len = 3\<rparr>,
                 \<lparr>b_id = 30, b_cap = 1, b_fib = Some [3, 7], b_fib_len = 2\<rparr>]\<rparr>
     [10, 10, 10, 30, 20, 20, 20, 30] 1
     (Some \<lparr>b_id = 20, b_cap = 1, b_fib = Some [4, 5, 6], b_fib_len = 3\<rparr>)
   = Inr (0,
     \<lparr>dcx = \<lparr>dcx_numb = 2, dcx_nums_bits = 3, dcx_weights = Some [4, 4],
              dcx_tab = Some [10, 10, 10, 30, 10, 30, 30, 30]\<rparr>,
      buckets = [\<lparr>b_id = 10, b_cap = 1, b_fib = None, b_fib_len = 3\<rparr>,
                 \<lparr>b_id = 30, b_cap = 1, b_fib = None, b_fib_len = 2\<rparr>]\<rparr>,
     Some \<lparr>b_id = 20, b_cap = 1, b_fib = None, b_fib_len = 3\<rparr>) \<and>
   diff_count (take (2 ^ 3) [10, 10, 10, 30, 20, 20, 20, 30 :: u32])
     [10, 10, 10, 30, 10, 30, 30, 30] = 3"
proof -
  let ?e = "\<lparr>alloc_ok = (\<lambda>n. True), space_occupied = 0\<rparr>"
  let ?b30 = "\<lparr>b_id = 30, b_cap = 1, b_fib = None, b_fib_len = 0\<rparr>"
  let ?b20 = "\<lparr>b_id = 20, b_cap = 1, b_fib = Some [4, 5, 6], b_fib_len = 3\<rparr>"
  let ?st1 = "\<lparr>dcx = \<lparr>dcx_numb = 2, dcx_nums_bits = 3, dcx_weights = Some [4, 4], dcx_tab = None\<rparr>,
      buckets = [\<lparr>b_id = 10, b_cap = 1, b_fib = Some [0, 1, 2, 3], b_fib_len = 4\<rparr>,
                 \<lparr>b_id = 20, b_cap = 1, b_fib = Some [4, 5, 6, 7], b_fib_len = 4\<rparr>,
                 ?b30]\<rparr>"
  let ?t1 = "[10, 10, 10, 10, 20, 20, 20, 20] :: u32 list"
  let ?st1' = "\<lparr>dcx = \<lparr>dcx_numb = 3, dcx_nums_bits = 3, dcx_weights = Some [3, 3, 2],
              dcx_tab = Some [10, 10, 10, 30, 20, 20, 20, 30]\<rparr>,
      buckets = [\<lparr>b_id = 10, b_cap = 1, b_fib = None, b_fib_len = 4\<rparr>,
                 \<lparr>b_id = 20, b_cap = 1, b_fib = None, b_fib_len = 4\<rparr>,
                 \<lparr>b_id = 30, b_cap = 1, b_fib = None, b_fib_len = 0\<rparr>]\<rparr>"
  let ?st2 = "\<lparr>dcx = \<lparr>dcx_numb = 3, dcx_nums_bits = 3, dcx_weights = Some [3, 3, 2], dcx_tab = None\<rparr>,
      buckets = [\<lparr>b_id = 10, b_cap = 1, b_fib = Some [0, 1, 2], b_fib_len = 3\<rparr>,
                 \<lparr>b_id = 30, b_cap = 1, b_fib = Some [3, 7], b_fib_len = 2\<rparr>]\<rparr>"
  let ?t2 = "[10, 10, 10, 30, 20, 20, 20, 30] :: u32 list"
  let ?st2' = "\<lparr>dcx = \<lparr>dcx_numb = 2, dcx_nums_bits = 3, dcx_weights = Some [4, 4],
              dcx_tab = Some [10, 10, 10, 30, 10, 30, 30, 30]\<rparr>,
      buckets = [\<lparr>b_id = 10, b_cap = 1, b_fib = None, b_fib_len = 3\<rparr>,
                 \<lparr>b_id = 30, b_cap = 1, b_fib = None, b_fib_len = 2\<rparr>]\<rparr>"
  let ?rm = "Some \<lparr>b_id = 20, b_cap = 1, b_fib = None, b_fib_len = 3\<rparr>"
  have up3: "[0..<3] = [0, 1, 2]" and up2: "[0..<2] = [0, 1]"
    by (simp_all add: upt_rec)
  have wf1: "inc_wf ?st1 ?t1 2 (Some ?b30)"
    by (simp add: inc_wf_def Let_def caps_ok_def fiber_ok_def inc_old_pos_def up3)
  have r1: "inc_fsx32 ?e ?st1 ?t1 2 (Some ?b30) = Inr (0, ?st1')"
    by (simp add: inc_fsx32_def balance_inc_def calibrate32_def calibrate_def clone_systab_def
          fsx32_alloc_def for_loop.simps rd_def wr_def idx2id_def fib_at_def fib_el_def
          fib_set_at_def release_fibers_def steal_segments_def excess_left_def
          excess_right_def touch_fiber_def rdp_def deref_def replicate_numeral)
  have wf2: "dec_wf ?st2 ?t2 1 ?b20"
    by (simp add: dec_wf_def Let_def caps_ok_def fiber_ok_def)
  have r2: "dec_fsx32 ?e ?st2 ?t2 1 (Some ?b20) = Inr (0, ?st2', ?rm)"
    by (simp add: dec_fsx32_def balance_dec_def balance_dec_body_def check_space_def
          calibrate32_def calibrate64_def calibrate_def clone_systab_def fsx32_alloc_def
          fsx64_alloc_def for_loop.simps rd_def wr_def cap_at_def hand_out_def idx2id_def
          shortage_left_def shortage_right_def fib_at_def fib_of_def fib_set_at_def
          release_fibers_def touch_fiber_def rdp_def deref_def replicate_numeral)
  from reconfiguration_minimal[of ?st1 ?t1 2 "Some ?b30" ?e ?st1', THEN conjunct1] wf1 r1
  have d1: "diff_count (take (2 ^ 3) ?t1) [10, 10, 10, 30, 20, 20, 20, 30] = 2"
    by (simp add: inc_old_pos_def up3)
  from reconfiguration_minimal[of ?st2 ?t2 1 _ ?e ?st2' ?b20 ?rm, THEN conjunct2, THEN conjunct1]
    wf2 r2
  have d2: "diff_count (take (2 ^ 3) ?t2) [10, 10, 10, 30, 10, 30, 30, 30] = 3"
    by (simp add: dec_old_pos_def up2)
  from wf1 r1 d1 wf2 r2 d2 show ?thesis by (intro conjI)
qed

end
